theory Spec2Isabelle
  imports Main
begin

text \<open>
  A model of the futures of \<open>index.ts\<close>: the classes \<open>Future\<close> and \<open>Bail\<close>, their objects
  in a store, and the host's queue of callbacks deferred with \<open>setTimeout(\<dots>, 0)\<close>.
\<close>

section \<open>Values, callbacks and the store\<close>

text \<open>
  The values that flow through a future. \<open>VRef a\<close> is a reference to the future object at
  address \<open>a\<close> (the only values for which \<open>val instanceof Future\<close> holds), \<open>VArr r\<close> a
  reference to the array at address \<open>r\<close>, \<open>VTypeError\<close> the error raised by calling a
  value that is not a function.
\<close>

datatype val = VUndef | VNum int | VStr string | VTypeError | VArr nat | VRef nat

text \<open>
  Function values. The closures that the source itself creates are represented by what
  they capture:
  \<^item> \<open>CResolve a\<close>: \<open>this.resolve\<close> of the future \<open>a\<close>, also \<open>(value) => { res(value) }\<close>;
  \<^item> \<open>CReject a\<close>: \<open>this.reject\<close> of the future \<open>a\<close>, also \<open>err => rej(err)\<close>;
  \<^item> \<open>CAllPush r n a\<close>: the callback of \<open>all\<close>, with the array \<open>results\<close> at \<open>r\<close>,
    \<open>futuresArr.length = n\<close> and \<open>res\<close> the \<open>resolve\<close> of \<open>a\<close>.
  Callbacks supplied by the caller are free of effects on futures (\<open>CFun f\<close>, where
  \<open>f v\<close> is \<open>Inr\<close> the returned value or \<open>Inl\<close> the thrown one), or of the form
  \<open>v => b.then(f, g)\<close> (\<open>CThen b f g\<close>), or of the form
  \<open>v => { if (seen.length === 0) { seen.push(v); return c(v) } }\<close> with an array \<open>seen\<close> of
  the caller at \<open>r\<close> (\<open>COnce r c\<close>).
\<close>

datatype cb =
    CFun "val \<Rightarrow> val + val"
  | CResolve nat
  | CReject nat
  | CAllPush nat nat nat
  | CThen nat "cb option" "cb option"
  | COnce nat cb

text \<open>
  The object \<open>{onFullfill, onReject}\<close> built in \<open>then\<close>: both closures capture \<open>res\<close> and
  \<open>rej\<close> of the child future and the arguments \<open>onFulfill\<close>, \<open>onReject\<close> (\<open>None\<close> when
  falsy).
\<close>

datatype handler = Handler nat "cb option" "cb option"

text \<open>The closure handed to \<open>setTimeout\<close> in \<open>updateResult\<close>: this, value, status.\<close>

datatype task = Task nat val string

definition PENDING :: string where "PENDING = ''PENDING''"
definition FULFILLED :: string where "FULFILLED = ''FULFILLED''"
definition REJECTED :: string where "REJECTED = ''REJECTED''"

record future =
  status :: string
  fvalue :: val
  handlers :: "handler list"

text \<open>
  The program state: the objects (futures by address, \<open>nfut\<close> the next free address;
  arrays likewise), the host's queue of deferred callbacks in FIFO order, and \<open>calls\<close>,
  the sequence of handler invocations made so far (future, handler); nothing reads it.
\<close>

record state =
  heap :: "nat \<Rightarrow> future"
  nfut :: nat
  arrays :: "nat \<Rightarrow> val list"
  narr :: nat
  queue :: "task list"
  calls :: "(nat \<times> handler) list"

definition fut :: "state \<Rightarrow> nat \<Rightarrow> future" where
  "fut s a = heap s a"

definition set_fut :: "nat \<Rightarrow> future \<Rightarrow> state \<Rightarrow> state" where
  "set_fut a f s = s\<lparr>heap := (heap s)(a := f)\<rparr>"

definition setTimeout0 :: "task \<Rightarrow> state \<Rightarrow> state" where
  "setTimeout0 t s = s\<lparr>queue := queue s @ [t]\<rparr>"

definition array_push :: "nat \<Rightarrow> val \<Rightarrow> state \<Rightarrow> state" where
  "array_push r v s = s\<lparr>arrays := (arrays s)(r := arrays s r @ [v])\<rparr>"

definition new_array :: "state \<Rightarrow> nat \<times> state" where
  "new_array s = (narr s, s\<lparr>arrays := (arrays s)(narr s := []), narr := Suc (narr s)\<rparr>)"

definition record_call :: "nat \<Rightarrow> handler \<Rightarrow> state \<Rightarrow> state" where
  "record_call a h s = s\<lparr>calls := calls s @ [(a, h)]\<rparr>"

fun forEach :: "('a \<Rightarrow> 's \<Rightarrow> 's option) \<Rightarrow> 'a list \<Rightarrow> 's \<Rightarrow> 's option" where
  "forEach f [] s = Some s"
| "forEach f (x # xs) s = (case f x s of None \<Rightarrow> None | Some s' \<Rightarrow> forEach f xs s')"

section \<open>class Future\<close>

definition updateResult :: "nat \<Rightarrow> val \<Rightarrow> string \<Rightarrow> state \<Rightarrow> state" where
  "updateResult this v st s = setTimeout0 (Task this v st) s"

definition resolve :: "nat \<Rightarrow> val \<Rightarrow> state \<Rightarrow> state" where
  "resolve this v s = updateResult this v FULFILLED s"

definition reject :: "nat \<Rightarrow> val \<Rightarrow> state \<Rightarrow> state" where
  "reject this e s = updateResult this e REJECTED s"

definition isThenable :: "val \<Rightarrow> bool" where
  "isThenable v = (case v of VRef _ \<Rightarrow> True | _ \<Rightarrow> False)"

text \<open>
  The constructor: the three fields are set, then the resolver runs with \<open>this\<close>; a value
  it throws (\<open>Some err\<close>) is passed to \<open>this.reject\<close>. The result of the resolver is \<open>None\<close>
  when the depth given to it does not suffice (see below); such a run is not followed.
\<close>

definition constructor ::
  "(nat \<Rightarrow> state \<Rightarrow> (val option \<times> state) option) \<Rightarrow> state \<Rightarrow> (nat \<times> state) option" where
  "constructor resolver s =
     (let this = nfut s;
          s1 = (set_fut this \<lparr>status = PENDING, fvalue = VUndef, handlers = []\<rparr> s)
                 \<lparr>nfut := Suc (nfut s)\<rparr>
      in case resolver this s1 of
           None \<Rightarrow> None
         | Some (None, s2) \<Rightarrow> Some (this, s2)
         | Some (Some err, s2) \<Rightarrow> Some (this, reject this err s2))"

text \<open>
  The synchronous part of the class. These methods call each other and the callbacks, and
  a callback may call \<open>then\<close> again, so the nesting is not bounded by the data. The first
  argument bounds the depth of nested calls (every call of a function below takes one
  frame). A result \<open>Some\<close> is what the source computes on any call stack that is at least
  that deep. At depth 0 the result is \<open>None\<close>: the run needs a deeper stack, and it is not
  followed further (in the source a \<open>RangeError\<close> is raised at that point, for the next
  enclosing \<open>try\<close> to catch, so \<open>None\<close> says nothing about what the source does). A value
  thrown by a callback is \<open>Inl\<close> and is caught where the source has \<open>try\<close>.

  \<^item> \<open>call\<close> applies a function value.
  \<^item> \<open>onFullfill\<close> and \<open>onReject\<close> are the two closures of the handler built in \<open>then\<close>.
    In \<open>onReject\<close> the branch for an absent \<open>onReject\<close> has no \<open>return\<close>: after \<open>rej(value)\<close>
    the \<open>try\<close> block calls the absent function, and the \<open>TypeError\<close> goes to \<open>rej\<close> too.
  \<^item> \<open>executeHandlers\<close> loops over the handlers the array held when the loop started
    (\<open>forEach\<close> visits the indices below the initial length, and the array only grows),
    reads \<open>this.status\<close> and \<open>this.value\<close> at every handler, and assigns the empty array
    after the loop.
\<close>

function call :: "nat \<Rightarrow> cb \<Rightarrow> val \<Rightarrow> state \<Rightarrow> ((val + val) \<times> state) option"
and onFullfill :: "nat \<Rightarrow> handler \<Rightarrow> val \<Rightarrow> state \<Rightarrow> state option"
and onReject :: "nat \<Rightarrow> handler \<Rightarrow> val \<Rightarrow> state \<Rightarrow> state option"
and executeHandlers :: "nat \<Rightarrow> nat \<Rightarrow> state \<Rightarrow> state option"
and addHandler :: "nat \<Rightarrow> nat \<Rightarrow> handler \<Rightarrow> state \<Rightarrow> state option"
and Future_then :: "nat \<Rightarrow> nat \<Rightarrow> cb option \<Rightarrow> cb option \<Rightarrow> state \<Rightarrow> (nat \<times> state) option"
where
  "call 0 c v s = None"
| "call (Suc n) c v s =
     (case c of
        CFun f \<Rightarrow> Some (f v, s)
      | CResolve a \<Rightarrow> Some (Inr VUndef, resolve a v s)
      | CReject a \<Rightarrow> Some (Inr VUndef, reject a v s)
      | CAllPush r len a \<Rightarrow>
          (let s1 = array_push r v s
           in Some (Inr VUndef, if length (arrays s1 r) = len then resolve a (VArr r) s1 else s1))
      | CThen b f g \<Rightarrow>
          (case Future_then n b f g s of
             None \<Rightarrow> None
           | Some (child, s') \<Rightarrow> Some (Inr (VRef child), s'))
      | COnce r c' \<Rightarrow>
          (if arrays s r = [] then call n c' v (array_push r v s) else Some (Inr VUndef, s)))"
| "onFullfill 0 h v s = None"
| "onFullfill (Suc n) h v s =
     (case h of Handler child onFulfill onRej \<Rightarrow>
        (case onFulfill of
           None \<Rightarrow> Some (resolve child v s)
         | Some f \<Rightarrow>
             (case call n f v s of
                None \<Rightarrow> None
              | Some (Inr r, s') \<Rightarrow> Some (resolve child r s')
              | Some (Inl err, s') \<Rightarrow> Some (reject child err s'))))"
| "onReject 0 h v s = None"
| "onReject (Suc n) h v s =
     (case h of Handler child onFulfill onRej \<Rightarrow>
        (case onRej of
           None \<Rightarrow> Some (reject child VTypeError (reject child v s))
         | Some g \<Rightarrow>
             (case call n g v s of
                None \<Rightarrow> None
              | Some (Inr r, s') \<Rightarrow> Some (reject child r s')
              | Some (Inl err, s') \<Rightarrow> Some (reject child err s'))))"
| "executeHandlers 0 this s = None"
| "executeHandlers (Suc n) this s =
     (if status (fut s this) = PENDING then Some s
      else
        (case forEach
                (\<lambda>h s1. let s2 = record_call this h s1
                         in if status (fut s2 this) = FULFILLED
                            then onFullfill n h (fvalue (fut s2 this)) s2
                            else onReject n h (fvalue (fut s2 this)) s2)
                (handlers (fut s this)) s of
           None \<Rightarrow> None
         | Some s' \<Rightarrow> Some (set_fut this ((fut s' this)\<lparr>handlers := []\<rparr>) s')))"
| "addHandler 0 this h s = None"
| "addHandler (Suc n) this h s =
     executeHandlers n this
       (set_fut this ((fut s this)\<lparr>handlers := handlers (fut s this) @ [h]\<rparr>) s)"
| "Future_then 0 this onFulfill onRej s = None"
| "Future_then (Suc n) this onFulfill onRej s =
     constructor
       (\<lambda>child s1.
          case addHandler n this (Handler child onFulfill onRej) s1 of
            None \<Rightarrow> None
          | Some s2 \<Rightarrow> Some (None, s2))
       s"
  by pat_completeness auto
termination
  by (relation "measure (\<lambda>x. case x of
          Inl (Inl p) \<Rightarrow> fst p | Inl (Inr (Inl p)) \<Rightarrow> fst p | Inl (Inr (Inr p)) \<Rightarrow> fst p
        | Inr (Inl p) \<Rightarrow> fst p | Inr (Inr (Inl p)) \<Rightarrow> fst p | Inr (Inr (Inr p)) \<Rightarrow> fst p)")
     auto

text \<open>\<open>catch(onReject)\<close> is \<open>this.then(null, onReject)\<close>; \<open>onReject\<close> may be absent.\<close>

definition Future_catch :: "nat \<Rightarrow> nat \<Rightarrow> cb option \<Rightarrow> state \<Rightarrow> (nat \<times> state) option" where
  "Future_catch n this onRej s = Future_then n this None onRej s"

text \<open>
  The callback that \<open>updateResult\<close> hands to \<open>setTimeout\<close>, run later by the host.
\<close>

definition run_task :: "nat \<Rightarrow> task \<Rightarrow> state \<Rightarrow> state option" where
  "run_task n t s =
     (case t of Task this v st \<Rightarrow>
        if status (fut s this) \<noteq> PENDING then Some s
        else if isThenable v then
          (case v of
             VRef b \<Rightarrow>
               (case Future_then n b (Some (CResolve this)) (Some (CReject this)) s of
                  None \<Rightarrow> None
                | Some (child, s') \<Rightarrow> Some s')
           | _ \<Rightarrow> Some s)
        else executeHandlers n this (set_fut this ((fut s this)\<lparr>fvalue := v, status := st\<rparr>) s))"

definition Future_all :: "nat \<Rightarrow> nat list \<Rightarrow> state \<Rightarrow> (nat \<times> state) option" where
  "Future_all n futuresArr s =
     constructor
       (\<lambda>agg s1.
          case new_array s1 of (results, s2) \<Rightarrow>
            (case forEach
                    (\<lambda>future s3.
                       case Future_then n future
                              (Some (CAllPush results (length futuresArr) agg)) None s3 of
                         None \<Rightarrow> None
                       | Some (child, s4) \<Rightarrow>
                           (case Future_catch n child (Some (CReject agg)) s4 of
                              None \<Rightarrow> None
                            | Some (child2, s5) \<Rightarrow> Some s5))
                    futuresArr s2 of
               None \<Rightarrow> None
             | Some s6 \<Rightarrow> Some (None, s6)))
       s"

definition Future_race :: "nat \<Rightarrow> nat list \<Rightarrow> state \<Rightarrow> (nat \<times> state) option" where
  "Future_race n futuresArr s =
     constructor
       (\<lambda>agg s1.
          case forEach
                 (\<lambda>future s3.
                    case Future_then n future (Some (CResolve agg)) None s3 of
                      None \<Rightarrow> None
                    | Some (child, s4) \<Rightarrow>
                        (case Future_catch n child (Some (CReject agg)) s4 of
                           None \<Rightarrow> None
                         | Some (child2, s5) \<Rightarrow> Some s5))
                 futuresArr s1 of
            None \<Rightarrow> None
          | Some s6 \<Rightarrow> Some (None, s6))
       s"

section \<open>The host and the callers\<close>

text \<open>
  The host runs the deferred callbacks one at a time, oldest first. Between two of them a
  caller may create a future whose resolver calls nothing at once (\<open>ENew\<close>), create a
  future whose resolver calls \<open>res\<close> and \<open>rej\<close> with given values, in a given order, and
  then returns or throws a value (\<open>ENewWith\<close>), create an empty array (\<open>ENewArr\<close>), call the
  \<open>resolve\<close> or \<open>reject\<close> that a resolver was given (\<open>EResolve\<close>, \<open>EReject\<close>), or call
  \<open>then\<close>, \<open>catch\<close>, \<open>all\<close> and \<open>race\<close>. The results of \<open>then\<close> and the others are the
  addresses \<open>nfut\<close> had before the call.
\<close>

definition tick :: "nat \<Rightarrow> state \<Rightarrow> state option" where
  "tick n s = (case queue s of [] \<Rightarrow> Some s | t # q \<Rightarrow> run_task n t (s\<lparr>queue := q\<rparr>))"

datatype settle = Res val | Rej val

definition user_resolver ::
  "settle list \<Rightarrow> val option \<Rightarrow> nat \<Rightarrow> state \<Rightarrow> (val option \<times> state) option" where
  "user_resolver acts thrown this s1 =
     Some (thrown,
           foldl (\<lambda>s a. case a of Res v \<Rightarrow> resolve this v s | Rej v \<Rightarrow> reject this v s) s1 acts)"

datatype event =
    ENew
  | ENewWith "settle list" "val option"
  | ENewArr
  | EResolve nat val
  | EReject nat val
  | EThen nat "cb option" "cb option"
  | ECatch nat "cb option"
  | EAll "nat list"
  | ERace "nat list"
  | ETick

definition step :: "nat \<Rightarrow> event \<Rightarrow> state \<Rightarrow> state option" where
  "step n e s =
     (case e of
        ENew \<Rightarrow> map_option snd (constructor (\<lambda>this s1. Some (None, s1)) s)
      | ENewWith acts thrown \<Rightarrow> map_option snd (constructor (user_resolver acts thrown) s)
      | ENewArr \<Rightarrow> Some (snd (new_array s))
      | EResolve a v \<Rightarrow> Some (resolve a v s)
      | EReject a v \<Rightarrow> Some (reject a v s)
      | EThen a f g \<Rightarrow> map_option snd (Future_then n a f g s)
      | ECatch a g \<Rightarrow> map_option snd (Future_catch n a g s)
      | EAll fs \<Rightarrow> map_option snd (Future_all n fs s)
      | ERace fs \<Rightarrow> map_option snd (Future_race n fs s)
      | ETick \<Rightarrow> tick n s)"

definition exec :: "nat \<Rightarrow> event list \<Rightarrow> state \<Rightarrow> state option" where
  "exec n es s = forEach (step n) es s"

text \<open>The state before anything is created.\<close>

definition init :: state where
  "init = \<lparr>heap = (\<lambda>_. \<lparr>status = PENDING, fvalue = VUndef, handlers = []\<rparr>), nfut = 0,
            arrays = (\<lambda>_. []), narr = 0, queue = [], calls = []\<rparr>"

section \<open>class Bail\<close>

text \<open>
  The second file of the source declares the same types and the class \<open>Bail\<close>. It is
  translated on its own, method by method; a reference \<open>VRef a\<close> in a program of that
  file is an instance of \<open>Bail\<close>, which is what \<open>val instanceof Bail\<close> tests.
\<close>

definition Bail_updateResult :: "nat \<Rightarrow> val \<Rightarrow> string \<Rightarrow> state \<Rightarrow> state" where
  "Bail_updateResult this v st s = setTimeout0 (Task this v st) s"

definition Bail_resolve :: "nat \<Rightarrow> val \<Rightarrow> state \<Rightarrow> state" where
  "Bail_resolve this v s = Bail_updateResult this v FULFILLED s"

definition Bail_reject :: "nat \<Rightarrow> val \<Rightarrow> state \<Rightarrow> state" where
  "Bail_reject this e s = Bail_updateResult this e REJECTED s"

definition Bail_isThenable :: "val \<Rightarrow> bool" where
  "Bail_isThenable v = (case v of VRef _ \<Rightarrow> True | _ \<Rightarrow> False)"

text \<open>
  The constructor of \<open>Bail\<close>. The field initializer \<open>status = 'Pending'\<close> runs first (the
  other two fields have none), then the body sets the three fields, then the resolver runs
  as in \<open>Future\<close>.
\<close>

definition Bail_constructor ::
  "(nat \<Rightarrow> state \<Rightarrow> (val option \<times> state) option) \<Rightarrow> state \<Rightarrow> (nat \<times> state) option" where
  "Bail_constructor resolver s =
     (let this = nfut s;
          s0 = set_fut this \<lparr>status = ''Pending'', fvalue = VUndef, handlers = []\<rparr> s;
          s1 = (set_fut this
                  ((fut s0 this)\<lparr>status := PENDING, fvalue := VUndef, handlers := []\<rparr>) s0)
                 \<lparr>nfut := Suc (nfut s)\<rparr>
      in case resolver this s1 of
           None \<Rightarrow> None
         | Some (None, s2) \<Rightarrow> Some (this, s2)
         | Some (Some err, s2) \<Rightarrow> Some (this, Bail_reject this err s2))"

text \<open>The synchronous part of \<open>Bail\<close>, with the depth of nested calls as in \<open>Future\<close>.\<close>

function Bail_call :: "nat \<Rightarrow> cb \<Rightarrow> val \<Rightarrow> state \<Rightarrow> ((val + val) \<times> state) option"
and Bail_onFullfill :: "nat \<Rightarrow> handler \<Rightarrow> val \<Rightarrow> state \<Rightarrow> state option"
and Bail_onReject :: "nat \<Rightarrow> handler \<Rightarrow> val \<Rightarrow> state \<Rightarrow> state option"
and Bail_executeHandlers :: "nat \<Rightarrow> nat \<Rightarrow> state \<Rightarrow> state option"
and Bail_addHandler :: "nat \<Rightarrow> nat \<Rightarrow> handler \<Rightarrow> state \<Rightarrow> state option"
and Bail_then :: "nat \<Rightarrow> nat \<Rightarrow> cb option \<Rightarrow> cb option \<Rightarrow> state \<Rightarrow> (nat \<times> state) option"
where
  "Bail_call 0 c v s = None"
| "Bail_call (Suc n) c v s =
     (case c of
        CFun f \<Rightarrow> Some (f v, s)
      | CResolve a \<Rightarrow> Some (Inr VUndef, Bail_resolve a v s)
      | CReject a \<Rightarrow> Some (Inr VUndef, Bail_reject a v s)
      | CAllPush r len a \<Rightarrow>
          (let s1 = array_push r v s
           in Some (Inr VUndef, if length (arrays s1 r) = len then Bail_resolve a (VArr r) s1 else s1))
      | CThen b f g \<Rightarrow>
          (case Bail_then n b f g s of
             None \<Rightarrow> None
           | Some (child, s') \<Rightarrow> Some (Inr (VRef child), s'))
      | COnce r c' \<Rightarrow>
          (if arrays s r = [] then Bail_call n c' v (array_push r v s) else Some (Inr VUndef, s)))"
| "Bail_onFullfill 0 h v s = None"
| "Bail_onFullfill (Suc n) h v s =
     (case h of Handler child onFulfill onRej \<Rightarrow>
        (case onFulfill of
           None \<Rightarrow> Some (Bail_resolve child v s)
         | Some f \<Rightarrow>
             (case Bail_call n f v s of
                None \<Rightarrow> None
              | Some (Inr r, s') \<Rightarrow> Some (Bail_resolve child r s')
              | Some (Inl err, s') \<Rightarrow> Some (Bail_reject child err s'))))"
| "Bail_onReject 0 h v s = None"
| "Bail_onReject (Suc n) h v s =
     (case h of Handler child onFulfill onRej \<Rightarrow>
        (case onRej of
           None \<Rightarrow> Some (Bail_reject child VTypeError (Bail_reject child v s))
         | Some g \<Rightarrow>
             (case Bail_call n g v s of
                None \<Rightarrow> None
              | Some (Inr r, s') \<Rightarrow> Some (Bail_reject child r s')
              | Some (Inl err, s') \<Rightarrow> Some (Bail_reject child err s'))))"
| "Bail_executeHandlers 0 this s = None"
| "Bail_executeHandlers (Suc n) this s =
     (if status (fut s this) = PENDING then Some s
      else
        (case forEach
                (\<lambda>h s1. let s2 = record_call this h s1
                         in if status (fut s2 this) = FULFILLED
                            then Bail_onFullfill n h (fvalue (fut s2 this)) s2
                            else Bail_onReject n h (fvalue (fut s2 this)) s2)
                (handlers (fut s this)) s of
           None \<Rightarrow> None
         | Some s' \<Rightarrow> Some (set_fut this ((fut s' this)\<lparr>handlers := []\<rparr>) s')))"
| "Bail_addHandler 0 this h s = None"
| "Bail_addHandler (Suc n) this h s =
     Bail_executeHandlers n this
       (set_fut this ((fut s this)\<lparr>handlers := handlers (fut s this) @ [h]\<rparr>) s)"
| "Bail_then 0 this onFulfill onRej s = None"
| "Bail_then (Suc n) this onFulfill onRej s =
     Bail_constructor
       (\<lambda>child s1.
          case Bail_addHandler n this (Handler child onFulfill onRej) s1 of
            None \<Rightarrow> None
          | Some s2 \<Rightarrow> Some (None, s2))
       s"
  by pat_completeness auto
termination
  by (relation "measure (\<lambda>x. case x of
          Inl (Inl p) \<Rightarrow> fst p | Inl (Inr (Inl p)) \<Rightarrow> fst p | Inl (Inr (Inr p)) \<Rightarrow> fst p
        | Inr (Inl p) \<Rightarrow> fst p | Inr (Inr (Inl p)) \<Rightarrow> fst p | Inr (Inr (Inr p)) \<Rightarrow> fst p)")
     auto

definition Bail_catch :: "nat \<Rightarrow> nat \<Rightarrow> cb option \<Rightarrow> state \<Rightarrow> (nat \<times> state) option" where
  "Bail_catch n this onRej s = Bail_then n this None onRej s"

text \<open>The callback that \<open>updateResult\<close> of \<open>Bail\<close> hands to \<open>setTimeout\<close>.\<close>

definition Bail_run_task :: "nat \<Rightarrow> task \<Rightarrow> state \<Rightarrow> state option" where
  "Bail_run_task n t s =
     (case t of Task this v st \<Rightarrow>
        if status (fut s this) \<noteq> PENDING then Some s
        else if Bail_isThenable v then
          (case v of
             VRef b \<Rightarrow>
               (case Bail_then n b (Some (CResolve this)) (Some (CReject this)) s of
                  None \<Rightarrow> None
                | Some (child, s') \<Rightarrow> Some s')
           | _ \<Rightarrow> Some s)
        else Bail_executeHandlers n this (set_fut this ((fut s this)\<lparr>fvalue := v, status := st\<rparr>) s))"

definition Bail_all :: "nat \<Rightarrow> nat list \<Rightarrow> state \<Rightarrow> (nat \<times> state) option" where
  "Bail_all n bailArr s =
     Bail_constructor
       (\<lambda>agg s1.
          case new_array s1 of (results, s2) \<Rightarrow>
            (case forEach
                    (\<lambda>bail s3.
                       case Bail_then n bail
                              (Some (CAllPush results (length bailArr) agg)) None s3 of
                         None \<Rightarrow> None
                       | Some (child, s4) \<Rightarrow>
                           (case Bail_catch n child (Some (CReject agg)) s4 of
                              None \<Rightarrow> None
                            | Some (child2, s5) \<Rightarrow> Some s5))
                    bailArr s2 of
               None \<Rightarrow> None
             | Some s6 \<Rightarrow> Some (None, s6)))
       s"

definition Bail_race :: "nat \<Rightarrow> nat list \<Rightarrow> state \<Rightarrow> (nat \<times> state) option" where
  "Bail_race n bailArr s =
     Bail_constructor
       (\<lambda>agg s1.
          case forEach
                 (\<lambda>bail s3.
                    case Bail_then n bail (Some (CResolve agg)) None s3 of
                      None \<Rightarrow> None
                    | Some (child, s4) \<Rightarrow>
                        (case Bail_catch n child (Some (CReject agg)) s4 of
                           None \<Rightarrow> None
                         | Some (child2, s5) \<Rightarrow> Some s5))
                 bailArr s1 of
            None \<Rightarrow> None
          | Some s6 \<Rightarrow> Some (None, s6))
       s"

text \<open>The same host and the same calls, with \<open>Bail\<close> in the place of \<open>Future\<close>.\<close>

definition Bail_user_resolver ::
  "settle list \<Rightarrow> val option \<Rightarrow> nat \<Rightarrow> state \<Rightarrow> (val option \<times> state) option" where
  "Bail_user_resolver acts thrown this s1 =
     Some (thrown,
           foldl (\<lambda>s a. case a of Res v \<Rightarrow> Bail_resolve this v s | Rej v \<Rightarrow> Bail_reject this v s)
                 s1 acts)"

definition Bail_tick :: "nat \<Rightarrow> state \<Rightarrow> state option" where
  "Bail_tick n s = (case queue s of [] \<Rightarrow> Some s | t # q \<Rightarrow> Bail_run_task n t (s\<lparr>queue := q\<rparr>))"

definition Bail_step :: "nat \<Rightarrow> event \<Rightarrow> state \<Rightarrow> state option" where
  "Bail_step n e s =
     (case e of
        ENew \<Rightarrow> map_option snd (Bail_constructor (\<lambda>this s1. Some (None, s1)) s)
      | ENewWith acts thrown \<Rightarrow>
          map_option snd (Bail_constructor (Bail_user_resolver acts thrown) s)
      | ENewArr \<Rightarrow> Some (snd (new_array s))
      | EResolve a v \<Rightarrow> Some (Bail_resolve a v s)
      | EReject a v \<Rightarrow> Some (Bail_reject a v s)
      | EThen a f g \<Rightarrow> map_option snd (Bail_then n a f g s)
      | ECatch a g \<Rightarrow> map_option snd (Bail_catch n a g s)
      | EAll fs \<Rightarrow> map_option snd (Bail_all n fs s)
      | ERace fs \<Rightarrow> map_option snd (Bail_race n fs s)
      | ETick \<Rightarrow> Bail_tick n s)"

definition Bail_exec :: "nat \<Rightarrow> event list \<Rightarrow> state \<Rightarrow> state option" where
  "Bail_exec n es s = forEach (Bail_step n) es s"

section \<open>Observations and invariants\<close>

definition status_of :: "nat \<Rightarrow> state \<Rightarrow> string" where
  "status_of a s = status (fut s a)"

definition value_of :: "nat \<Rightarrow> state \<Rightarrow> val" where
  "value_of a s = fvalue (fut s a)"

text \<open>No future is lost, and the status and value of \<open>a\<close> stay as they are.\<close>

definition fields_kept :: "nat \<Rightarrow> state \<Rightarrow> state \<Rightarrow> bool" where
  "fields_kept a s s' \<longleftrightarrow>
     nfut s \<le> nfut s' \<and>
     (a < nfut s \<longrightarrow> status_of a s' = status_of a s \<and> value_of a s' = value_of a s)"

text \<open>The same for \<open>a\<close> once it is no longer pending.\<close>

definition settled_kept :: "nat \<Rightarrow> state \<Rightarrow> state \<Rightarrow> bool" where
  "settled_kept a s s' \<longleftrightarrow>
     nfut s \<le> nfut s' \<and>
     (a < nfut s \<and> status_of a s \<noteq> PENDING \<longrightarrow>
        status_of a s' = status_of a s \<and> value_of a s' = value_of a s)"

text \<open>
  A relation between the state before and the state after holds for every synchronous
  function of the class, at a given depth.
\<close>

definition sync_ok :: "(state \<Rightarrow> state \<Rightarrow> bool) \<Rightarrow> nat \<Rightarrow> bool" where
  "sync_ok R n \<longleftrightarrow>
     (\<forall>c v s r s'. call n c v s = Some (r, s') \<longrightarrow> R s s') \<and>
     (\<forall>h v s s'. onFullfill n h v s = Some s' \<longrightarrow> R s s') \<and>
     (\<forall>h v s s'. onReject n h v s = Some s' \<longrightarrow> R s s') \<and>
     (\<forall>a s s'. executeHandlers n a s = Some s' \<longrightarrow> R s s') \<and>
     (\<forall>a h s s'. addHandler n a h s = Some s' \<longrightarrow> R s s') \<and>
     (\<forall>a f g s c s'. Future_then n a f g s = Some (c, s') \<longrightarrow> R s s')"

text \<open>
  The handler that \<open>updateResult\<close> registers on an inner future: \<open>this.resolve\<close> and
  \<open>this.reject\<close> of the outer future \<open>a\<close>, with \<open>c\<close> the child that \<open>then\<close> creates.
\<close>

definition relay :: "nat \<Rightarrow> nat \<Rightarrow> handler" where
  "relay c a = Handler c (Some (CResolve a)) (Some (CReject a))"



text \<open>The call of \<open>resolve\<close> or of \<open>reject\<close> that leads to the status \<open>st\<close>.\<close>

definition settle_call :: "string \<Rightarrow> nat \<Rightarrow> val \<Rightarrow> event" where
  "settle_call st a v = (if st = FULFILLED then EResolve a v else EReject a v)"


text \<open>Function values and handlers that register no handler when they are called.\<close>

definition simple_cb :: "cb \<Rightarrow> bool" where
  "simple_cb c = (case c of CThen b f g \<Rightarrow> False | COnce r c' \<Rightarrow> False | _ \<Rightarrow> True)"

definition simple_handler :: "handler \<Rightarrow> bool" where
  "simple_handler h =
     (case h of Handler c f g \<Rightarrow>
        (case f of None \<Rightarrow> True | Some k \<Rightarrow> simple_cb k) \<and>
        (case g of None \<Rightarrow> True | Some k \<Rightarrow> simple_cb k))"

text \<open>The arrow function that \<open>executeHandlers\<close> passes to \<open>forEach\<close>, by name.\<close>

definition deliver :: "nat \<Rightarrow> nat \<Rightarrow> handler \<Rightarrow> state \<Rightarrow> state option" where
  "deliver n this h s1 =
     (let s2 = record_call this h s1
      in if status (fut s2 this) = FULFILLED
         then onFullfill n h (fvalue (fut s2 this)) s2
         else onReject n h (fvalue (fut s2 this)) s2)"

text \<open>The callbacks \<open>v => r\<close> and \<open>v => { throw e }\<close>.\<close>

definition returns :: "val \<Rightarrow> val \<Rightarrow> val + val" where
  "returns r v = Inr r"








text \<open>The calls and deferred callbacks by which the futures of \<open>done\<close> are fulfilled, one
  after the other, each with its value.\<close>

definition fulfil_each :: "(nat \<times> val) list \<Rightarrow> event list" where
  "fulfil_each done = concat (map (\<lambda>(a, v). [EResolve a v, ETick, ETick, ETick]) done)"





text \<open>No address beyond the allocated ones holds a settled object.\<close>

definition wf_store :: "state \<Rightarrow> bool" where
  "wf_store s \<longleftrightarrow> (\<forall>a. nfut s \<le> a \<longrightarrow> status_of a s = PENDING)"

text \<open>
  What a synchronous turn may do: create futures, which are pending; leave the status of
  every future and the value of every older future as they are; invoke handlers, but only
  of futures that were settled before.
\<close>

definition turn_rel :: "state \<Rightarrow> state \<Rightarrow> bool" where
  "turn_rel s t \<longleftrightarrow>
     wf_store t \<and> nfut s \<le> nfut t \<and>
     (\<forall>a. status_of a t = status_of a s) \<and>
     (\<forall>a. a < nfut s \<longrightarrow> value_of a t = value_of a s) \<and>
     (\<exists>xs. calls t = calls s @ xs \<and> (\<forall>c \<in> set xs. status_of (fst c) s \<noteq> PENDING))"

definition turn_ok :: "state \<Rightarrow> state \<Rightarrow> bool" where
  "turn_ok s t \<longleftrightarrow> (wf_store s \<longrightarrow> turn_rel s t)"







text \<open>
  The deferred callbacks that a call of \<open>all\<close> leaves in the host's queue for the inputs
  \<open>fs\<close>, by their status at the call (in the state \<open>s\<close>): \<open>cnt\<close> values are in the array
  \<open>r\<close> already, and \<open>n\<close> is the address of the next future to be created.
\<close>

fun all_queue :: "state \<Rightarrow> nat \<Rightarrow> nat \<Rightarrow> nat \<Rightarrow> nat \<Rightarrow> nat \<Rightarrow> nat list \<Rightarrow> task list" where
  "all_queue s agg r len cnt n [] = []"
| "all_queue s agg r len cnt n (f # fs) =
     (if status_of f s = FULFILLED then
        (if Suc cnt = len then [Task agg (VArr r) FULFILLED] else []) @
        [Task n VUndef FULFILLED] @ all_queue s agg r len (Suc cnt) (Suc (Suc n)) fs
      else if status_of f s = REJECTED then
        [Task n (value_of f s) REJECTED, Task n VTypeError REJECTED] @
        all_queue s agg r len cnt (Suc (Suc n)) fs
      else all_queue s agg r len cnt (Suc (Suc n)) fs)"




section \<open>Basic facts\<close>

lemma forEach_preserves:
  assumes "\<And>s. R s s" and "\<And>s t u. R s t \<Longrightarrow> R t u \<Longrightarrow> R s u"
    and "\<And>x s s'. x \<in> set xs \<Longrightarrow> f x s = Some s' \<Longrightarrow> R s s'"
    and "forEach f xs s = Some s'"
  shows "R s s'"
  using assms(3,4)
proof (induction xs arbitrary: s)
  case Nil
  then show ?case using assms(1) by simp
next
  case (Cons x xs)
  then show ?case using assms(2) by (fastforce split: option.splits)
qed

lemma sync_preserves:
  assumes refl: "\<And>s. R s s" and trans: "\<And>s t u. R s t \<Longrightarrow> R t u \<Longrightarrow> R s u"
    and enq: "\<And>t s. R s (setTimeout0 t s)"
    and push: "\<And>r v s. R s (array_push r v s)"
    and rec: "\<And>a h s. R s (record_call a h s)"
    and hs: "\<And>a hs s. R s (set_fut a ((fut s a)\<lparr>handlers := hs\<rparr>) s)"
    and alloc: "\<And>s. R s ((set_fut (nfut s) \<lparr>status = PENDING, fvalue = VUndef, handlers = []\<rparr> s)\<lparr>nfut := Suc (nfut s)\<rparr>)"
  shows "sync_ok R n"
proof (induction n)
  case 0
  show ?case by (simp add: sync_ok_def)
next
  case (Suc n)
  have upd: "\<And>a v st s. R s (updateResult a v st s)" by (simp add: updateResult_def enq)
  have ihC: "\<And>c v s r s'. call n c v s = Some (r, s') \<Longrightarrow> R s s'"
    and ihF: "\<And>h v s s'. onFullfill n h v s = Some s' \<Longrightarrow> R s s'"
    and ihR: "\<And>h v s s'. onReject n h v s = Some s' \<Longrightarrow> R s s'"
    and ihE: "\<And>a s s'. executeHandlers n a s = Some s' \<Longrightarrow> R s s'"
    and ihA: "\<And>a h s s'. addHandler n a h s = Some s' \<Longrightarrow> R s s'"
    and ihT: "\<And>a f g s c s'. Future_then n a f g s = Some (c, s') \<Longrightarrow> R s s'"
    using Suc unfolding sync_ok_def by (simp_all)
  have c: "\<And>c v s r s'. call (Suc n) c v s = Some (r, s') \<Longrightarrow> R s s'"
    by (auto simp: resolve_def reject_def Let_def split: cb.splits option.splits if_splits intro: refl upd ihT trans[OF push upd] push trans[OF push ihC])
  have f: "\<And>h v s s'. onFullfill (Suc n) h v s = Some s' \<Longrightarrow> R s s'"
    by (auto simp: resolve_def reject_def split: handler.splits option.splits sum.splits intro: upd trans[OF ihC upd] trans[OF upd upd])
  have r: "\<And>h v s s'. onReject (Suc n) h v s = Some s' \<Longrightarrow> R s s'"
    by (auto simp: resolve_def reject_def split: handler.splits option.splits sum.splits intro: upd trans[OF ihC upd] trans[OF upd upd])
  have e: "\<And>a s s'. executeHandlers (Suc n) a s = Some s' \<Longrightarrow> R s s'"
  proof -
    fix a s s' assume h: "executeHandlers (Suc n) a s = Some s'"
    show "R s s'"
    proof (cases "status (fut s a) = PENDING")
      case True
      then show ?thesis using h refl by simp
    next
      case False
      then obtain t where t: "forEach
                (\<lambda>h s1. let s2 = record_call a h s1
                         in if status (fut s2 a) = FULFILLED
                            then onFullfill n h (fvalue (fut s2 a)) s2
                            else onReject n h (fvalue (fut s2 a)) s2)
                (handlers (fut s a)) s = Some t" and s': "s' = set_fut a ((fut t a)\<lparr>handlers := []\<rparr>) t"
        using h by (auto split: option.splits)
      have "R s t"
        apply (rule forEach_preserves[where R=R, OF refl trans _ t])
        by (auto simp: Let_def split: if_splits intro: trans[OF rec ihF] trans[OF rec ihR])
      then show ?thesis using s' hs trans by blast
    qed
  qed
  have a: "\<And>a h s s'. addHandler (Suc n) a h s = Some s' \<Longrightarrow> R s s'"
    by (auto intro: trans[OF hs ihE])
  have t: "\<And>a f g s c s'. Future_then (Suc n) a f g s = Some (c, s') \<Longrightarrow> R s s'"
    by (auto simp: constructor_def Let_def split: option.splits intro: trans[OF alloc ihA])
  show ?case unfolding sync_ok_def using c f r e a t by blast
qed

lemma api_preserves_sync:
  assumes refl: "\<And>s. R s s" and trans: "\<And>s t u. R s t \<Longrightarrow> R t u \<Longrightarrow> R s u"
    and enq: "\<And>t s. R s (setTimeout0 t s)"
    and alloc: "\<And>s. R s ((set_fut (nfut s) \<lparr>status = PENDING, fvalue = VUndef, handlers = []\<rparr> s)\<lparr>nfut := Suc (nfut s)\<rparr>)"
    and newarr: "\<And>s. R s (snd (new_array s))"
    and ok: "sync_ok R n"
    and run: "step n e s = Some s'" and call: "e \<noteq> ETick"
  shows "R s s'"
proof -
  from ok have sync: "\<And>a f g s c s'. Future_then n a f g s = Some (c, s') \<Longrightarrow> R s s'"
     "\<And>a s s'. executeHandlers n a s = Some s' \<Longrightarrow> R s s'"
    unfolding sync_ok_def by simp_all
  have upd: "\<And>a v st s. R s (updateResult a v st s)" by (simp add: updateResult_def enq)
  have T: "\<And>a f g s c s'. Future_then n a f g s = Some (c, s') \<Longrightarrow> R s s'"
    using sync by blast
  have E: "\<And>a s s'. executeHandlers n a s = Some s' \<Longrightarrow> R s s'"
    using sync by blast
  have C: "\<And>a g s c s'. Future_catch n a g s = Some (c, s') \<Longrightarrow> R s s'"
    unfolding Future_catch_def using T by blast
  have all: "\<And>fs s c s'. Future_all n fs s = Some (c, s') \<Longrightarrow> R s s'"
  proof -
    fix fs s c s' assume h: "Future_all n fs s = Some (c, s')"
    let ?s1 = "(set_fut (nfut s) \<lparr>status = PENDING, fvalue = VUndef, handlers = []\<rparr> s)\<lparr>nfut := Suc (nfut s)\<rparr>"
    obtain r s2 where na: "new_array ?s1 = (r, s2)" by fastforce
    from h na obtain s6 where
      fe: "forEach (\<lambda>future s3.
                       case Future_then n future
                              (Some (CAllPush r (length fs) (nfut s))) None s3 of
                         None \<Rightarrow> None
                       | Some (child, s4) \<Rightarrow>
                           (case Future_catch n child (Some (CReject (nfut s))) s4 of
                              None \<Rightarrow> None
                            | Some (child2, s5) \<Rightarrow> Some s5)) fs s2 = Some s6" and "s' = s6"
      by (auto simp: Future_all_def constructor_def Let_def split: option.splits prod.splits)
    have "R s2 s6"
      by (rule forEach_preserves[where R=R, OF refl trans _ fe])
         (auto split: option.splits intro: trans[OF T C])
    moreover have "R ?s1 s2" using newarr[of ?s1] na by simp
    ultimately show "R s s'" using alloc[of s] trans \<open>s' = s6\<close> by blast
  qed
  have race: "\<And>fs s c s'. Future_race n fs s = Some (c, s') \<Longrightarrow> R s s'"
  proof -
    fix fs s c s' assume h: "Future_race n fs s = Some (c, s')"
    let ?s1 = "(set_fut (nfut s) \<lparr>status = PENDING, fvalue = VUndef, handlers = []\<rparr> s)\<lparr>nfut := Suc (nfut s)\<rparr>"
    from h obtain s6 where
      fe: "forEach (\<lambda>future s3.
                    case Future_then n future (Some (CResolve (nfut s))) None s3 of
                      None \<Rightarrow> None
                    | Some (child, s4) \<Rightarrow>
                        (case Future_catch n child (Some (CReject (nfut s))) s4 of
                           None \<Rightarrow> None
                         | Some (child2, s5) \<Rightarrow> Some s5)) fs ?s1 = Some s6" and "s' = s6"
      by (auto simp: Future_race_def constructor_def Let_def split: option.splits prod.splits)
    have "R ?s1 s6"
      by (rule forEach_preserves[where R=R, OF refl trans _ fe])
         (auto split: option.splits intro: trans[OF T C])
    then show "R s s'" using alloc[of s] trans \<open>s' = s6\<close> by blast
  qed
  have res: "\<And>this acts s. R s (foldl (\<lambda>s a. case a of Res v \<Rightarrow> resolve this v s
                                              | Rej v \<Rightarrow> reject this v s) s acts)"
  proof -
    fix this acts s
    show "R s (foldl (\<lambda>s a. case a of Res v \<Rightarrow> resolve this v s
                                   | Rej v \<Rightarrow> reject this v s) s acts)"
    proof (induction acts arbitrary: s)
      case Nil
      show ?case by (simp add: refl)
    next
      case (Cons a acts)
      have "R s (case a of Res v \<Rightarrow> resolve this v s | Rej v \<Rightarrow> reject this v s)"
        by (cases a) (simp_all add: resolve_def reject_def upd)
      then show ?case using Cons.IH trans unfolding foldl_Cons by blast
    qed
  qed
  have new: "\<And>acts thrown s c s'. constructor (user_resolver acts thrown) s = Some (c, s') \<Longrightarrow> R s s'"
  proof -
    fix acts thrown s c s'
    assume h: "constructor (user_resolver acts thrown) s = Some (c, s')"
    let ?s1 = "(set_fut (nfut s) \<lparr>status = PENDING, fvalue = VUndef, handlers = []\<rparr> s)\<lparr>nfut := Suc (nfut s)\<rparr>"
    let ?s2 = "foldl (\<lambda>s' a. case a of Res v \<Rightarrow> resolve (nfut s) v s'
                                   | Rej v \<Rightarrow> reject (nfut s) v s') ?s1 acts"
    have "R s ?s2" using alloc[of s] res[of ?s1 "nfut s" acts] trans by blast
    moreover have "s' = ?s2 \<or> (\<exists>err. s' = reject (nfut s) err ?s2)"
      using h by (auto simp: constructor_def user_resolver_def Let_def split: option.splits)
    moreover have "R ?s2 (reject (nfut s) err ?s2)" for err by (simp add: reject_def upd)
    ultimately show "R s s'" using trans by blast
  qed
  show ?thesis
    using run call
    by (auto simp: step_def resolve_def reject_def constructor_def Let_def split: event.splits
        intro: upd alloc newarr T C all race new)
qed

lemma api_preserves:
  assumes refl: "\<And>s. R s s" and trans: "\<And>s t u. R s t \<Longrightarrow> R t u \<Longrightarrow> R s u"
    and enq: "\<And>t s. R s (setTimeout0 t s)"
    and push: "\<And>r v s. R s (array_push r v s)"
    and rec: "\<And>a h s. R s (record_call a h s)"
    and hs: "\<And>a hs s. R s (set_fut a ((fut s a)\<lparr>handlers := hs\<rparr>) s)"
    and alloc: "\<And>s. R s ((set_fut (nfut s) \<lparr>status = PENDING, fvalue = VUndef, handlers = []\<rparr> s)\<lparr>nfut := Suc (nfut s)\<rparr>)"
    and newarr: "\<And>s. R s (snd (new_array s))"
    and run: "step n e s = Some s'" and call: "e \<noteq> ETick"
  shows "R s s'"
proof -
  have ok: "sync_ok R n"
    by (rule sync_preserves[where R=R]) (auto intro: refl enq push rec hs alloc elim: trans)
  show ?thesis
    by (rule api_preserves_sync[where R=R, OF refl _ enq alloc newarr ok run call])
       (erule trans, assumption)
qed

lemma exec_preserves:
  assumes refl: "\<And>s. R s s" and trans: "\<And>s t u. R s t \<Longrightarrow> R t u \<Longrightarrow> R s u"
    and enq: "\<And>t s. R s (setTimeout0 t s)"
    and push: "\<And>r v s. R s (array_push r v s)"
    and rec: "\<And>a h s. R s (record_call a h s)"
    and hs: "\<And>a hs s. R s (set_fut a ((fut s a)\<lparr>handlers := hs\<rparr>) s)"
    and alloc: "\<And>s. R s ((set_fut (nfut s) \<lparr>status = PENDING, fvalue = VUndef, handlers = []\<rparr> s)\<lparr>nfut := Suc (nfut s)\<rparr>)"
    and newarr: "\<And>s. R s (snd (new_array s))"
    and deq: "\<And>s. R s (s\<lparr>queue := tl (queue s)\<rparr>)"
    and settle: "\<And>a v st s. status (fut s a) = PENDING \<Longrightarrow> \<not> isThenable v \<Longrightarrow>
                   R s (set_fut a ((fut s a)\<lparr>fvalue := v, status := st\<rparr>) s)"
    and run: "exec n es s = Some s'"
  shows "R s s'"
proof -
  have "sync_ok R n"
    by (rule sync_preserves[where R=R]) (auto intro: refl enq push rec hs alloc elim: trans)
  then have T: "\<And>a f g s c s'. Future_then n a f g s = Some (c, s') \<Longrightarrow> R s s'"
    and E: "\<And>a s s'. executeHandlers n a s = Some s' \<Longrightarrow> R s s'"
    unfolding sync_ok_def by simp_all
  have task: "\<And>t s s'. run_task n t s = Some s' \<Longrightarrow> R s s'"
    by (auto simp: run_task_def split: task.splits if_splits val.splits option.splits
        intro: refl T trans[OF settle E])
  have tick: "\<And>s s'. tick n s = Some s' \<Longrightarrow> R s s'"
  proof -
    fix s s' assume "tick n s = Some s'"
    then show "R s s'"
      using deq[of s] by (auto simp: tick_def split: list.splits intro: refl trans task)
  qed
  have step: "\<And>e s s'. step n e s = Some s' \<Longrightarrow> R s s'"
  proof -
    fix e s s' assume h: "step n e s = Some s'"
    show "R s s'"
    proof (cases "e = ETick")
      case True
      then show ?thesis using h tick by (simp add: step_def)
    next
      case False
      show ?thesis
        by (rule api_preserves[where R=R, OF refl _ enq push rec hs alloc newarr h False])
           (erule trans, assumption)
    qed
  qed
  show ?thesis
    using run unfolding exec_def
    by (rule forEach_preserves[where R=R, rotated 3]) (auto intro: refl step elim: trans)
qed

lemmas prim_defs = fut_def set_fut_def setTimeout0_def array_push_def new_array_def
  record_call_def status_of_def value_of_def

lemmas run_defs = exec_def step_def tick_def run_task_def constructor_def Future_catch_def
  Future_all_def Future_race_def updateResult_def resolve_def reject_def isThenable_def
  init_def Let_def prim_defs

lemma status_distinct [simp]:
  "PENDING \<noteq> FULFILLED" "PENDING \<noteq> REJECTED" "FULFILLED \<noteq> REJECTED"
  "FULFILLED \<noteq> PENDING" "REJECTED \<noteq> PENDING" "REJECTED \<noteq> FULFILLED"
  by (simp_all add: PENDING_def FULFILLED_def REJECTED_def)

section \<open>Results do not depend on the depth\<close>

text \<open>
  A run that is followed to its end at one depth is followed to the same end at every
  greater depth: what the model computes is independent of how deep the call stack is,
  once it is deep enough.
\<close>

lemma forEach_deeper:
  assumes "\<And>x s r. f x s = Some r \<Longrightarrow> g x s = Some r"
  shows "forEach f xs s = Some r \<Longrightarrow> forEach g xs s = Some r"
proof (induction xs arbitrary: s)
  case Nil
  then show ?case by simp
next
  case (Cons x xs)
  then obtain s1 where s1: "f x s = Some s1" "forEach f xs s1 = Some r"
    by (auto split: option.splits)
  from assms[OF s1(1)] Cons.IH[OF s1(2)] show ?case by simp
qed

lemma constructor_deeper:
  assumes "\<And>this s r. f this s = Some r \<Longrightarrow> g this s = Some r"
  shows "constructor f s = Some r \<Longrightarrow> constructor g s = Some r"
proof -
  assume c: "constructor f s = Some r"
  let ?s1 = "(set_fut (nfut s) \<lparr>status = PENDING, fvalue = VUndef, handlers = []\<rparr> s)
                 \<lparr>nfut := Suc (nfut s)\<rparr>"
  from c obtain q where q: "f (nfut s) ?s1 = Some q"
    by (auto simp: constructor_def Let_def split: option.splits)
  from assms[OF q] q c show ?thesis
    by (simp add: constructor_def Let_def)
qed

lemma sync_deeper:
  "(\<forall>c v s r. call n c v s = Some r \<longrightarrow> call (Suc n) c v s = Some r) \<and>
   (\<forall>h v s r. onFullfill n h v s = Some r \<longrightarrow> onFullfill (Suc n) h v s = Some r) \<and>
   (\<forall>h v s r. onReject n h v s = Some r \<longrightarrow> onReject (Suc n) h v s = Some r) \<and>
   (\<forall>this s r. executeHandlers n this s = Some r \<longrightarrow> executeHandlers (Suc n) this s = Some r) \<and>
   (\<forall>this h s r. addHandler n this h s = Some r \<longrightarrow> addHandler (Suc n) this h s = Some r) \<and>
   (\<forall>this f g s r. Future_then n this f g s = Some r \<longrightarrow> Future_then (Suc n) this f g s = Some r)"
proof (induction n)
  case 0
  show ?case by simp
next
  case (Suc n)
  note ihC = Suc[THEN conjunct1, rule_format]
  note ihF = Suc[THEN conjunct2, THEN conjunct1, rule_format]
  note ihR = Suc[THEN conjunct2, THEN conjunct2, THEN conjunct1, rule_format]
  note ihE = Suc[THEN conjunct2, THEN conjunct2, THEN conjunct2, THEN conjunct1, rule_format]
  note ihA = Suc[THEN conjunct2, THEN conjunct2, THEN conjunct2, THEN conjunct2, THEN conjunct1,
      rule_format]
  note ihT = Suc[THEN conjunct2, THEN conjunct2, THEN conjunct2, THEN conjunct2, THEN conjunct2,
      rule_format]
  have C: "call (Suc (Suc n)) c v s = Some r" if a: "call (Suc n) c v s = Some r" for c v s r
  proof (cases c)
    case (CThen b f g)
    with a obtain q where q: "Future_then n b f g s = Some q"
      by (auto split: option.splits)
    from ihT[OF q] q a CThen show ?thesis by simp
  next
    case (COnce r' c')
    show ?thesis
    proof (cases "arrays s r' = []")
      case True
      with a COnce have "call n c' v (array_push r' v s) = Some r" by simp
      from ihC[OF this] True COnce show ?thesis by simp
    next
      case False
      with a COnce show ?thesis by simp
    qed
  qed (use a in auto)
  have F: "onFullfill (Suc (Suc n)) h v s = Some r" if a: "onFullfill (Suc n) h v s = Some r"
    for h v s r
  proof (cases h)
    case (Handler child f g)
    show ?thesis
    proof (cases f)
      case None
      with a Handler show ?thesis by simp
    next
      case (Some k)
      with a Handler obtain q where q: "call n k v s = Some q"
        by (auto split: option.splits)
      from ihC[OF q] q a Handler Some show ?thesis by simp
    qed
  qed
  have R: "onReject (Suc (Suc n)) h v s = Some r" if a: "onReject (Suc n) h v s = Some r"
    for h v s r
  proof (cases h)
    case (Handler child f g)
    show ?thesis
    proof (cases g)
      case None
      with a Handler show ?thesis by simp
    next
      case (Some k)
      with a Handler obtain q where q: "call n k v s = Some q"
        by (auto split: option.splits)
      from ihC[OF q] q a Handler Some show ?thesis by simp
    qed
  qed
  have E: "executeHandlers (Suc (Suc n)) this s = Some r"
    if a: "executeHandlers (Suc n) this s = Some r" for this s r
  proof (cases "status (fut s this) = PENDING")
    case True
    with a show ?thesis by simp
  next
    case False
    let ?f = "\<lambda>m h s1. let s2 = record_call this h s1
                         in if status (fut s2 this) = FULFILLED
                            then onFullfill m h (fvalue (fut s2 this)) s2
                            else onReject m h (fvalue (fut s2 this)) s2"
    from a False obtain q where q: "forEach (?f n) (handlers (fut s this)) s = Some q"
      by (auto split: option.splits)
    have el: "?f (Suc n) h s1 = Some r'" if b: "?f n h s1 = Some r'" for h s1 r'
    proof (cases "status (fut (record_call this h s1) this) = FULFILLED")
      case True
      from b have "onFullfill n h (fvalue (fut (record_call this h s1) this))
                     (record_call this h s1) = Some r'"
        by (simp only: Let_def True simp_thms if_True)
      from ihF[OF this] show ?thesis by (simp only: Let_def True simp_thms if_True)
    next
      case False
      from b have "onReject n h (fvalue (fut (record_call this h s1) this))
                     (record_call this h s1) = Some r'"
        by (simp only: Let_def False if_False)
      from ihR[OF this] show ?thesis by (simp only: Let_def False if_False)
    qed
    have "forEach (?f (Suc n)) (handlers (fut s this)) s = Some q"
      using q by (rule forEach_deeper[rotated]) (rule el)
    with q a False show ?thesis by simp
  qed
  have A: "addHandler (Suc (Suc n)) this h s = Some r"
    if a: "addHandler (Suc n) this h s = Some r" for this h s r
    using a ihE by simp
  have T: "Future_then (Suc (Suc n)) this f g s = Some r"
    if a: "Future_then (Suc n) this f g s = Some r" for this f g s r
  proof -
    let ?f = "\<lambda>m child s1. case addHandler m this (Handler child f g) s1 of
            None \<Rightarrow> None
          | Some s2 \<Rightarrow> Some (None :: val option, s2)"
    from a have "constructor (?f n) s = Some r" by simp
    then have "constructor (?f (Suc n)) s = Some r"
      by (rule constructor_deeper[rotated]) (auto split: option.splits dest: ihA)
    then show ?thesis by simp
  qed
  from C F R E A T show ?case by blast
qed

lemma step_deeper_gen:
  assumes T: "\<And>a f g s r. Future_then n a f g s = Some r \<Longrightarrow> Future_then m a f g s = Some r"
    and E: "\<And>this s r. executeHandlers n this s = Some r \<Longrightarrow> executeHandlers m this s = Some r"
    and a: "step n e s = Some t"
  shows "step m e s = Some t"
proof -
  let ?g = "\<lambda>d k agg future s3.
     case Future_then d future k None s3 of None \<Rightarrow> None
      | Some (child, s4) \<Rightarrow>
          (case Future_catch d child (Some (CReject agg)) s4 of None \<Rightarrow> None
           | Some (child2, s5) \<Rightarrow> Some s5)"
  have each: "?g m k agg x s = Some r" if h: "?g n k agg x s = Some r" for k x s r agg
  proof -
    from h obtain c s4 where 1: "Future_then n x k None s = Some (c, s4)"
      by (cases "Future_then n x k None s") auto
    from h 1 obtain c2 where 2: "Future_then n c None (Some (CReject agg)) s4 = Some (c2, r)"
      by (cases "Future_then n c None (Some (CReject agg)) s4") (auto simp: Future_catch_def)
    show ?thesis
      by (simp only: T[OF 1] T[OF 2] Future_catch_def option.case prod.case)
  qed
  have fe: "forEach (?g m k agg) fs s = Some r" if "forEach (?g n k agg) fs s = Some r"
    for k agg fs s r
    using that by (rule forEach_deeper[rotated]) (rule each)
  show ?thesis
  proof (cases e)
    case (EThen a' f g)
    with a show ?thesis by (auto simp: step_def dest: T)
  next
    case (ECatch a' g)
    with a show ?thesis by (auto simp: step_def Future_catch_def dest: T)
  next
    case (EAll fs)
    with a obtain r where r: "Future_all n fs s = Some r" "t = snd r"
      by (auto simp: step_def)
    have "Future_all m fs s = Some r"
      using r(1) unfolding Future_all_def
      by (rule constructor_deeper[rotated])
         (auto split: option.splits prod.splits dest!: fe)
    with r EAll show ?thesis by (simp add: step_def)
  next
    case (ERace fs)
    with a obtain r where r: "Future_race n fs s = Some r" "t = snd r"
      by (auto simp: step_def)
    have "Future_race m fs s = Some r"
      using r(1) unfolding Future_race_def
      by (rule constructor_deeper[rotated])
         (auto split: option.splits prod.splits dest!: fe)
    with r ERace show ?thesis by (simp add: step_def)
  next
    case ETick
    show ?thesis
    proof (cases "queue s")
      case Nil
      with a ETick show ?thesis by (simp add: step_def tick_def)
    next
      case (Cons tk q)
      obtain b v st where tk: "tk = Task b v st" by (cases tk)
      from a ETick Cons tk have rt: "run_task n (Task b v st) (s\<lparr>queue := q\<rparr>) = Some t"
        by (simp add: step_def tick_def)
      have "run_task m (Task b v st) (s\<lparr>queue := q\<rparr>) = Some t"
        using rt unfolding run_task_def
        by (auto split: if_splits val.splits option.splits prod.splits dest: T E)
      with ETick Cons tk show ?thesis by (simp add: step_def tick_def)
    qed
  qed (use a in \<open>auto simp: step_def\<close>)
qed

lemma step_deeper: "step n e s = Some t \<Longrightarrow> step (Suc n) e s = Some t"
  by (rule step_deeper_gen[of n "Suc n"])
     (rule sync_deeper[of n, THEN conjunct2, THEN conjunct2, THEN conjunct2, THEN conjunct2,
       THEN conjunct2, rule_format]
      sync_deeper[of n, THEN conjunct2, THEN conjunct2, THEN conjunct2, THEN conjunct1,
       rule_format], assumption)+

lemma exec_deeper: "exec n es s = Some t \<Longrightarrow> exec (n + k) es s = Some t"
proof (induction k)
  case 0
  then show ?case by simp
next
  case (Suc k)
  then have "forEach (step (n + k)) es s = Some t" by (simp add: exec_def)
  then have "forEach (step (Suc (n + k))) es s = Some t"
    by (rule forEach_deeper[rotated]) (rule step_deeper)
  then show ?case by (simp add: exec_def)
qed

section \<open>Settlement happens once\<close>

lemma sync_fields_kept: "sync_ok (fields_kept a) n"
  by (rule sync_preserves) (auto simp: fields_kept_def prim_defs)

lemma exec_settled_kept: "exec n es s = Some s' \<Longrightarrow> settled_kept a s s'"
  by (erule exec_preserves[rotated -1]) (auto simp: settled_kept_def prim_defs)

lemma run_task_settled:
  "status_of a s \<noteq> PENDING \<Longrightarrow> run_task n (Task a v st) s = Some s"
  by (simp add: run_task_def status_of_def)

lemma run_task_plain:
  assumes "a < nfut s" "status_of a s = PENDING" "\<not> isThenable v"
    and "run_task n (Task a v st) s = Some s'"
  shows "status_of a s' = st \<and> value_of a s' = v \<and> nfut s \<le> nfut s'"
proof -
  let ?s1 = "set_fut a ((fut s a)\<lparr>fvalue := v, status := st\<rparr>) s"
  from assms have "executeHandlers n a ?s1 = Some s'"
    by (auto simp: run_task_def status_of_def)
  then have "fields_kept a ?s1 s'"
    using sync_fields_kept[of a n] unfolding sync_ok_def by blast
  with assms show ?thesis
    by (simp_all add: fields_kept_def prim_defs)
qed

lemma exec_settled:
  assumes "a < nfut s" "status_of a s \<noteq> PENDING" "exec n es s = Some t"
  shows "status_of a t = status_of a s \<and> value_of a t = value_of a s"
  using exec_settled_kept[OF assms(3), of a] assms(1,2) by (simp add: settled_kept_def)

lemma tick_Cons: "queue s = t # q \<Longrightarrow> tick d s = run_task d t (s\<lparr>queue := q\<rparr>)"
  by (simp add: tick_def)

lemma exec_append:
  "exec d (es @ fs) s = (case exec d es s of None \<Rightarrow> None | Some s' \<Rightarrow> exec d fs s')"
  by (induction es arbitrary: s) (auto simp: exec_def split: option.splits)

lemma exec_Nil [simp]: "exec d [] s = Some s"
  by (simp add: exec_def)

lemma exec_Cons:
  "exec d (e # es) s = (case step d e s of None \<Rightarrow> None | Some s' \<Rightarrow> exec d es s')"
  by (simp add: exec_def split: option.splits)










section \<open>Adoption of an inner future\<close>















text \<open>The scenario of the specification: A resolved with B, B with C, C with 42.\<close>

lemma flatten_42:
  "map_option (\<lambda>t. (status_of 0 t, value_of 0 t))
     (exec 3 ([ENew, ENew, ENew, EResolve 0 (VRef 1), EResolve 1 (VRef 2), EResolve 2 (VNum 42)]
              @ replicate 6 ETick) init)
   = Some (FULFILLED, VNum 42)"
  by (simp add: run_defs eval_nat_numeral relay_def)

section \<open>Delivery of handlers\<close>

lemma executeHandlers_Suc:
  "executeHandlers (Suc n) this s =
     (if status (fut s this) = PENDING then Some s
      else (case forEach (deliver n this) (handlers (fut s this)) s of
              None \<Rightarrow> None
            | Some s' \<Rightarrow> Some (set_fut this ((fut s' this)\<lparr>handlers := []\<rparr>) s')))"
  unfolding deliver_def by simp

lemma record_call_simps [simp]:
  "fut (record_call a h s) = fut s" "nfut (record_call a h s) = nfut s"
  "calls (record_call a h s) = calls s @ [(a, h)]" "queue (record_call a h s) = queue s"
  "arrays (record_call a h s) = arrays s"
  by (simp_all add: prim_defs fun_eq_iff)

lemma updateResult_simps [simp]:
  "fut (updateResult a v st s) = fut s" "nfut (updateResult a v st s) = nfut s"
  "calls (updateResult a v st s) = calls s" "queue (updateResult a v st s) = queue s @ [Task a v st]"
  "arrays (updateResult a v st s) = arrays s"
  by (simp_all add: updateResult_def prim_defs fun_eq_iff)

lemma call_simple:
  assumes "simple_cb c"
  shows "\<exists>r s'. call (Suc n) c v s = Some (r, s') \<and> fut s' = fut s \<and> nfut s' = nfut s \<and>
           calls s' = calls s"
  using assms
  by (cases c) (auto simp: simple_cb_def resolve_def reject_def Let_def array_push_def fut_def)

lemma deliver_simple:
  assumes "simple_handler h"
  shows "\<exists>s'. deliver (Suc (Suc n)) a h s = Some s' \<and>
           fut s' = fut s \<and> nfut s' = nfut s \<and> calls s' = calls s @ [(a, h)]"
proof -
  obtain c f g where h: "h = Handler c f g" by (cases h)
  let ?s2 = "record_call a h s"
  let ?v = "fvalue (fut s a)"
  have F: "\<exists>s'. onFullfill (Suc (Suc n)) h ?v ?s2 = Some s' \<and>
           fut s' = fut s \<and> nfut s' = nfut s \<and> calls s' = calls s @ [(a, h)]"
  proof (cases f)
    case None
    then show ?thesis using h by (simp add: resolve_def)
  next
    case (Some k)
    then have "simple_cb k" using assms h by (simp add: simple_handler_def)
    from call_simple[OF this, of n ?v ?s2] obtain r s1 where
      "call (Suc n) k ?v ?s2 = Some (r, s1)" "fut s1 = fut ?s2"
      "nfut s1 = nfut ?s2" "calls s1 = calls ?s2" by blast
    then show ?thesis using h Some
      by (cases r) (simp_all add: resolve_def reject_def)
  qed
  have R: "\<exists>s'. onReject (Suc (Suc n)) h ?v ?s2 = Some s' \<and>
           fut s' = fut s \<and> nfut s' = nfut s \<and> calls s' = calls s @ [(a, h)]"
  proof (cases g)
    case None
    then show ?thesis using h by (simp add: reject_def)
  next
    case (Some k)
    then have "simple_cb k" using assms h by (simp add: simple_handler_def)
    from call_simple[OF this, of n ?v ?s2] obtain r s1 where
      "call (Suc n) k ?v ?s2 = Some (r, s1)" "fut s1 = fut ?s2"
      "nfut s1 = nfut ?s2" "calls s1 = calls ?s2" by blast
    then show ?thesis using h Some
      by (cases r) (simp_all add: resolve_def reject_def)
  qed
  show ?thesis using F R by (simp add: deliver_def Let_def del: onFullfill.simps onReject.simps)
qed

lemma forEach_simple:
  assumes "\<forall>h \<in> set hs. simple_handler h"
  shows "\<exists>s'. forEach (deliver (Suc (Suc n)) a) hs s = Some s' \<and>
           fut s' = fut s \<and> nfut s' = nfut s \<and> calls s' = calls s @ map (Pair a) hs"
  using assms
proof (induction hs arbitrary: s)
  case Nil
  then show ?case by simp
next
  case (Cons h hs)
  from deliver_simple[of h n a s] Cons.prems obtain s1 where
    s1: "deliver (Suc (Suc n)) a h s = Some s1"
      "fut s1 = fut s" "nfut s1 = nfut s" "calls s1 = calls s @ [(a, h)]" by auto
  from Cons.IH[of s1] Cons.prems obtain s' where
    "forEach (deliver (Suc (Suc n)) a) hs s1 = Some s'"
    "fut s' = fut s1" "nfut s' = nfut s1" "calls s' = calls s1 @ map (Pair a) hs" by auto
  then show ?case using s1 by simp
qed

text \<open>
  Order of delivery: when a future with handlers \<open>hs\<close>, none of which registers a handler
  in turn, is settled by its deferred callback, the handlers are invoked once each, in the
  order of registration, and the queue of handlers is empty afterwards.
\<close>

lemma delivery_in_order:
  assumes "status_of a s = PENDING" "\<not> isThenable v" "st \<noteq> PENDING"
    "\<forall>h \<in> set (handlers (fut s a)). simple_handler h"
  shows "\<exists>s'. run_task (Suc (Suc (Suc n))) (Task a v st) s = Some s' \<and>
           calls s' = calls s @ map (Pair a) (handlers (fut s a)) \<and>
           handlers (fut s' a) = [] \<and> status_of a s' = st \<and> value_of a s' = v"
proof -
  let ?s1 = "set_fut a ((fut s a)\<lparr>fvalue := v, status := st\<rparr>) s"
  have hs: "handlers (fut ?s1 a) = handlers (fut s a)" "status (fut ?s1 a) = st"
    "calls ?s1 = calls s"
    by (simp_all add: prim_defs)
  from forEach_simple[of "handlers (fut s a)" n a ?s1] assms(4) obtain s2 where
    s2: "forEach (deliver (Suc (Suc n)) a) (handlers (fut s a)) ?s1 = Some s2"
    "fut s2 = fut ?s1" "nfut s2 = nfut ?s1" "calls s2 = calls ?s1 @ map (Pair a) (handlers (fut s a))"
    by blast
  have "run_task (Suc (Suc (Suc n))) (Task a v st) s =
          Some (set_fut a ((fut s2 a)\<lparr>handlers := []\<rparr>) s2)"
    using assms(1,2,3) s2(1) hs
    by (simp add: run_task_def executeHandlers_Suc status_of_def del: executeHandlers.simps)
  then show ?thesis using s2 hs by (simp add: prim_defs)
qed

text \<open>
  Claim C3: every handler is delivered exactly once, never twice. This fails for a
  handler that registers on its own future while it is being delivered. With
  \<open>seen = []\<close> and
  \<open>p.then(v => { if (seen.length === 0) { seen.push(v); return p.then() } })\<close>,
  when \<open>p\<close> is fulfilled the handler of child 1 is invoked, its callback calls
  \<open>p.then()\<close>, and \<open>addHandler\<close> runs \<open>executeHandlers\<close> on the list that still
  holds the first handler: the handler of child 1 is invoked a second time, then the
  new handler of child 2.
\<close>

theorem reentrant_then_delivers_twice:
  "map_option calls
     (exec (10 + d) [ENewArr, ENew, EThen 0 (Some (COnce 0 (CThen 0 None None))) None,
                     EResolve 0 (VNum 1), ETick] init) =
   Some [(0, Handler 1 (Some (COnce 0 (CThen 0 None None))) None),
         (0, Handler 1 (Some (COnce 0 (CThen 0 None None))) None),
         (0, Handler 2 None None)]"
  by (simp add: run_defs eval_nat_numeral)

section \<open>Settlement is deferred, delivery is not\<close>

lemma then_settled_calls:
  assumes "status_of p s \<noteq> PENDING" "p < nfut s" "handlers (fut s p) = []"
    "simple_handler (Handler (nfut s) f g)"
  shows "\<exists>s'. Future_then (Suc (Suc (Suc (Suc (Suc n))))) p f g s = Some (nfut s, s') \<and>
           calls s' = calls s @ [(p, Handler (nfut s) f g)] \<and>
           status_of (nfut s) s' = PENDING"
proof -
  let ?h = "Handler (nfut s) f g"
  let ?s1 = "(set_fut (nfut s) \<lparr>status = PENDING, fvalue = VUndef, handlers = []\<rparr> s)\<lparr>nfut := Suc (nfut s)\<rparr>"
  let ?s2 = "set_fut p ((fut ?s1 p)\<lparr>handlers := handlers (fut ?s1 p) @ [?h]\<rparr>) ?s1"
  have s2: "status (fut ?s2 p) \<noteq> PENDING" "handlers (fut ?s2 p) = [?h]" "calls ?s2 = calls s"
    "status (fut ?s2 (nfut s)) = PENDING"
    using assms(1,2,3) by (auto simp: prim_defs)
  from forEach_simple[of "[?h]" n p ?s2] assms(4) obtain s3 where
    s3: "forEach (deliver (Suc (Suc n)) p) [?h] ?s2 = Some s3" "fut s3 = fut ?s2"
      "calls s3 = calls ?s2 @ map (Pair p) [?h]" by auto
  have "executeHandlers (Suc (Suc (Suc n))) p ?s2 = Some (set_fut p ((fut s3 p)\<lparr>handlers := []\<rparr>) s3)"
    using s2(1,2) s3(1) by (simp add: executeHandlers_Suc del: executeHandlers.simps forEach.simps)
  then have "Future_then (Suc (Suc (Suc (Suc (Suc n))))) p f g s
               = Some (nfut s, set_fut p ((fut s3 p)\<lparr>handlers := []\<rparr>) s3)"
    by (simp add: constructor_def Let_def del: executeHandlers.simps)
  moreover have "calls (set_fut p ((fut s3 p)\<lparr>handlers := []\<rparr>) s3) = calls s @ [(p, ?h)]"
    using s3 s2 by (simp add: set_fut_def)
  moreover have "status_of (nfut s) (set_fut p ((fut s3 p)\<lparr>handlers := []\<rparr>) s3) = PENDING"
  proof -
    have "fut s3 (nfut s) = fut ?s2 (nfut s)" using s3(2) by simp
    then have "status (fut s3 (nfut s)) = PENDING" using s2(4) by simp
    then show ?thesis using assms(2) by (simp add: set_fut_def status_of_def fut_def)
  qed
  ultimately show ?thesis by blast
qed

text \<open>
  Claim C5 as stated fails for a handler registered on a future that is already settled:
  \<open>then\<close> calls \<open>addHandler\<close>, which calls \<open>executeHandlers\<close>, which invokes the handler
  at once. After the settled future's \<open>then\<close> returns, and before the host runs anything,
  the handler has been invoked.
\<close>

theorem then_on_settled_runs_handler_counterexample:
  "map_option calls (exec 5 [ENew, EResolve 0 (VNum 1), ETick] init) = Some [] \<and>
   map_option calls
     (exec 5 [ENew, EResolve 0 (VNum 1), ETick, EThen 0 (Some (CFun (returns (VNum 2)))) None] init)
   = Some [(0, Handler 1 (Some (CFun (returns (VNum 2)))) None)]"
  by (simp add: run_defs eval_nat_numeral returns_def)

lemma turn_rel_refl: "wf_store s \<Longrightarrow> turn_rel s s"
  by (simp add: turn_rel_def)

lemma turn_rel_trans:
  assumes "turn_rel s t" "turn_rel t u"
  shows "turn_rel s u"
proof -
  from assms(1) obtain xs where xs: "calls t = calls s @ xs"
    "\<forall>c \<in> set xs. status_of (fst c) s \<noteq> PENDING" unfolding turn_rel_def by blast
  from assms(2) obtain ys where ys: "calls u = calls t @ ys"
    "\<forall>c \<in> set ys. status_of (fst c) t \<noteq> PENDING" unfolding turn_rel_def by blast
  have st: "\<forall>a. status_of a t = status_of a s" using assms(1) unfolding turn_rel_def by blast
  have "calls u = calls s @ (xs @ ys)" using xs ys by simp
  moreover have "\<forall>c \<in> set (xs @ ys). status_of (fst c) s \<noteq> PENDING"
    using xs(2) ys(2) st by auto
  ultimately have "\<exists>zs. calls u = calls s @ zs \<and> (\<forall>c \<in> set zs. status_of (fst c) s \<noteq> PENDING)"
    by blast
  moreover have "wf_store u" "nfut s \<le> nfut u" "\<forall>a. status_of a u = status_of a s"
    "\<forall>a. a < nfut s \<longrightarrow> value_of a u = value_of a s"
    using assms unfolding turn_rel_def by auto
  ultimately show ?thesis unfolding turn_rel_def by blast
qed

lemma turn_ok_refl: "turn_ok s s"
  by (simp add: turn_ok_def turn_rel_refl)

lemma turn_ok_trans: "turn_ok s t \<Longrightarrow> turn_ok t u \<Longrightarrow> turn_ok s u"
  unfolding turn_ok_def using turn_rel_trans by (metis turn_rel_def)

lemma turn_ok_prims:
  "turn_ok s (setTimeout0 t s)" "turn_ok s (array_push r v s)"
  "turn_ok s (set_fut a ((fut s a)\<lparr>handlers := hs\<rparr>) s)"
  "turn_ok s ((set_fut (nfut s) \<lparr>status = PENDING, fvalue = VUndef, handlers = []\<rparr> s)\<lparr>nfut := Suc (nfut s)\<rparr>)"
  "turn_ok s (snd (new_array s))"
  "status (fut s a) \<noteq> PENDING \<Longrightarrow> turn_ok s (record_call a h s)"
  by (auto simp: turn_ok_def turn_rel_def wf_store_def prim_defs)

lemma sync_turn: "sync_ok turn_ok n"
proof (induction n)
  case 0
  show ?case by (simp add: sync_ok_def)
next
  case (Suc n)
  note refl = turn_ok_refl and trans = turn_ok_trans
  note enq = turn_ok_prims(1) and push = turn_ok_prims(2) and hs = turn_ok_prims(3)
    and alloc = turn_ok_prims(4) and rec = turn_ok_prims(6)
  have upd: "\<And>a v st s. turn_ok s (updateResult a v st s)" by (simp add: updateResult_def enq)
  have ihC: "\<And>c v s r s'. call n c v s = Some (r, s') \<Longrightarrow> turn_ok s s'"
    and ihF: "\<And>h v s s'. onFullfill n h v s = Some s' \<Longrightarrow> turn_ok s s'"
    and ihR: "\<And>h v s s'. onReject n h v s = Some s' \<Longrightarrow> turn_ok s s'"
    and ihE: "\<And>a s s'. executeHandlers n a s = Some s' \<Longrightarrow> turn_ok s s'"
    and ihA: "\<And>a h s s'. addHandler n a h s = Some s' \<Longrightarrow> turn_ok s s'"
    and ihT: "\<And>a f g s c s'. Future_then n a f g s = Some (c, s') \<Longrightarrow> turn_ok s s'"
    using Suc unfolding sync_ok_def by (simp_all)
  have c: "\<And>c v s r s'. call (Suc n) c v s = Some (r, s') \<Longrightarrow> turn_ok s s'"
    by (auto simp: resolve_def reject_def Let_def split: cb.splits option.splits if_splits intro: refl upd ihT trans[OF push upd] push trans[OF push ihC])
  have f: "\<And>h v s s'. onFullfill (Suc n) h v s = Some s' \<Longrightarrow> turn_ok s s'"
    by (auto simp: resolve_def reject_def split: handler.splits option.splits sum.splits intro: upd trans[OF ihC upd] trans[OF upd upd])
  have r: "\<And>h v s s'. onReject (Suc n) h v s = Some s' \<Longrightarrow> turn_ok s s'"
    by (auto simp: resolve_def reject_def split: handler.splits option.splits sum.splits intro: upd trans[OF ihC upd] trans[OF upd upd])
  have e: "\<And>a s s'. executeHandlers (Suc n) a s = Some s' \<Longrightarrow> turn_ok s s'"
  proof -
    fix a s s' assume h: "executeHandlers (Suc n) a s = Some s'"
    show "turn_ok s s'"
    proof (cases "status (fut s a) = PENDING")
      case True
      then show ?thesis using h refl by simp
    next
      case False
      then obtain t where t: "forEach (deliver n a) (handlers (fut s a)) s = Some t"
        and s': "s' = set_fut a ((fut t a)\<lparr>handlers := []\<rparr>) t"
        using h by (auto simp: executeHandlers_Suc simp del: executeHandlers.simps split: option.splits)
      define R where "R = (\<lambda>s1 s2. wf_store s1 \<and> status (fut s1 a) \<noteq> PENDING \<longrightarrow> turn_rel s1 s2)"
      have Rrefl: "\<And>s. R s s" by (simp add: R_def turn_rel_refl)
      have Rtrans: "\<And>s t u. R s t \<Longrightarrow> R t u \<Longrightarrow> R s u"
      proof -
        fix s t u assume st: "R s t" and tu: "R t u"
        show "R s u" unfolding R_def
        proof
          assume a: "wf_store s \<and> status (fut s a) \<noteq> PENDING"
          then have 1: "turn_rel s t" using st by (simp add: R_def)
          then have "wf_store t" "status (fut t a) \<noteq> PENDING"
            using a by (auto simp: turn_rel_def status_of_def)
          then have "turn_rel t u" using tu by (simp add: R_def)
          with 1 show "turn_rel s u" by (rule turn_rel_trans)
        qed
      qed
      have Rstep: "\<And>x s1 s2. x \<in> set (handlers (fut s a)) \<Longrightarrow> deliver n a x s1 = Some s2 \<Longrightarrow> R s1 s2"
      proof -
        fix x s1 s2 assume d: "deliver n a x s1 = Some s2"
        show "R s1 s2" unfolding R_def
        proof
          assume a: "wf_store s1 \<and> status (fut s1 a) \<noteq> PENDING"
          have 1: "turn_ok s1 (record_call a x s1)" using a by (simp add: rec)
          have 2: "turn_ok (record_call a x s1) s2"
            using d ihF ihR by (auto simp: deliver_def Let_def split: if_splits)
          from trans[OF 1 2] a show "turn_rel s1 s2" by (simp add: turn_ok_def)
        qed
      qed
      have "R s t"
        by (rule forEach_preserves[where R=R, OF Rrefl Rtrans Rstep t])
      then have "turn_ok s t" using False by (auto simp: R_def turn_ok_def)
      then show ?thesis using s' hs trans by blast
    qed
  qed
  have a: "\<And>a h s s'. addHandler (Suc n) a h s = Some s' \<Longrightarrow> turn_ok s s'"
    by (auto intro: trans[OF hs ihE])
  have t: "\<And>a f g s c s'. Future_then (Suc n) a f g s = Some (c, s') \<Longrightarrow> turn_ok s s'"
    by (auto simp: constructor_def Let_def split: option.splits intro: trans[OF alloc ihA])
  show ?case unfolding sync_ok_def using c f r e a t by blast
qed

lemma api_turn: "step n e s = Some s' \<Longrightarrow> e \<noteq> ETick \<Longrightarrow> turn_ok s s'"
  by (rule api_preserves_sync[where R=turn_ok, OF turn_ok_refl _ turn_ok_prims(1,4,5) sync_turn])
     (erule turn_ok_trans, assumption)

lemma exec_turn:
  assumes "ETick \<notin> set es" "exec n es s = Some t"
  shows "turn_ok s t"
  using assms(2) unfolding exec_def
proof (rule forEach_preserves[where R=turn_ok, rotated 3])
  show "\<And>s. turn_ok s s" by (rule turn_ok_refl)
  show "\<And>s t u. turn_ok s t \<Longrightarrow> turn_ok t u \<Longrightarrow> turn_ok s u" by (rule turn_ok_trans)
  show "\<And>x s s'. x \<in> set es \<Longrightarrow> step n x s = Some s' \<Longrightarrow> turn_ok s s'"
    using assms(1) api_turn by metis
qed

lemma run_task_others:
  assumes "run_task d (Task b v st) s = Some t" "a < nfut s" "a \<noteq> b"
  shows "status_of a t = status_of a s \<and> value_of a t = value_of a s"
proof -
  have T: "\<And>x f g s c s'. Future_then d x f g s = Some (c, s') \<Longrightarrow> fields_kept a s s'"
    and E: "\<And>x s s'. executeHandlers d x s = Some s' \<Longrightarrow> fields_kept a s s'"
    using sync_fields_kept[of a d] unfolding sync_ok_def by blast+
  let ?s1 = "set_fut b ((fut s b)\<lparr>fvalue := v, status := st\<rparr>) s"
  have "fields_kept a s t \<or> fields_kept a ?s1 t"
    using assms(1) T E
    by (auto simp: run_task_def fields_kept_def split: if_splits val.splits option.splits)
  then show ?thesis using assms(2,3) by (auto simp: fields_kept_def prim_defs)
qed

text \<open>
  Claim C5, amended. A synchronous turn is any sequence \<open>es\<close> of calls of a caller
  (constructor calls, also with a resolver that settles at once or throws, settle calls,
  \<open>then\<close>, \<open>catch\<close>, \<open>all\<close>, \<open>race\<close>) with no deferred callback of the host in between.
  In such a turn every future that existed before keeps its status and value, every future
  created in the turn is pending at its end, and the only handlers invoked are handlers of
  futures that were settled before the turn began: a handler of a pending future, or of a
  future created in the turn, never runs before the turn completes. A deferred callback of
  the host changes the status and value of no future but its own. A handler registered on
  a future that is already settled is invoked by the registration itself, before \<open>then\<close>
  returns; the child is still pending then.
\<close>

theorem settlement_deferred:
  "(wf_store s \<and> ETick \<notin> set es \<and> exec d es s = Some t \<longrightarrow>
      (\<forall>a. a < nfut s \<longrightarrow> status_of a t = status_of a s \<and> value_of a t = value_of a s) \<and>
      (\<forall>a. nfut s \<le> a \<and> a < nfut t \<longrightarrow> status_of a t = PENDING) \<and>
      (\<exists>xs. calls t = calls s @ xs \<and>
            (\<forall>c \<in> set xs. fst c < nfut s \<and> status_of (fst c) s \<noteq> PENDING))) \<and>
   (run_task d (Task b v st) s = Some t' \<and> a < nfut s \<and> a \<noteq> b \<longrightarrow>
      status_of a t' = status_of a s \<and> value_of a t' = value_of a s) \<and>
   (status_of q s \<noteq> PENDING \<and> q < nfut s \<and> handlers (fut s q) = [] \<and>
    simple_handler (Handler (nfut s) f g) \<and> 5 \<le> d \<longrightarrow>
      (\<exists>u. Future_then d q f g s = Some (nfut s, u) \<and>
           calls u = calls s @ [(q, Handler (nfut s) f g)] \<and> status_of (nfut s) u = PENDING))"
proof -
  have A: "wf_store s \<and> ETick \<notin> set es \<and> exec d es s = Some t \<longrightarrow>
      (\<forall>a. a < nfut s \<longrightarrow> status_of a t = status_of a s \<and> value_of a t = value_of a s) \<and>
      (\<forall>a. nfut s \<le> a \<and> a < nfut t \<longrightarrow> status_of a t = PENDING) \<and>
      (\<exists>xs. calls t = calls s @ xs \<and>
            (\<forall>c \<in> set xs. fst c < nfut s \<and> status_of (fst c) s \<noteq> PENDING))"
  proof
    assume h: "wf_store s \<and> ETick \<notin> set es \<and> exec d es s = Some t"
    then have tr: "turn_rel s t" using exec_turn[of es d s t] by (simp add: turn_ok_def)
    have wf: "\<And>a. status_of a s \<noteq> PENDING \<Longrightarrow> a < nfut s"
      using h unfolding wf_store_def by (meson not_le)
    from tr obtain xs where xs: "calls t = calls s @ xs"
      "\<forall>c \<in> set xs. status_of (fst c) s \<noteq> PENDING" unfolding turn_rel_def by blast
    have 1: "\<forall>a. a < nfut s \<longrightarrow> status_of a t = status_of a s \<and> value_of a t = value_of a s"
      using tr unfolding turn_rel_def by simp
    have 2: "\<forall>a. nfut s \<le> a \<and> a < nfut t \<longrightarrow> status_of a t = PENDING"
      using tr h unfolding turn_rel_def wf_store_def by simp
    have 3: "\<exists>xs. calls t = calls s @ xs \<and>
            (\<forall>c \<in> set xs. fst c < nfut s \<and> status_of (fst c) s \<noteq> PENDING)"
      using xs wf by blast
    show "(\<forall>a. a < nfut s \<longrightarrow> status_of a t = status_of a s \<and> value_of a t = value_of a s) \<and>
      (\<forall>a. nfut s \<le> a \<and> a < nfut t \<longrightarrow> status_of a t = PENDING) \<and>
      (\<exists>xs. calls t = calls s @ xs \<and>
            (\<forall>c \<in> set xs. fst c < nfut s \<and> status_of (fst c) s \<noteq> PENDING))"
      using 1 2 3 by blast
  qed
  have B: "run_task d (Task b v st) s = Some t' \<and> a < nfut s \<and> a \<noteq> b \<longrightarrow>
      status_of a t' = status_of a s \<and> value_of a t' = value_of a s"
    using run_task_others[of d b v st s t' a] by blast
  have C: "status_of q s \<noteq> PENDING \<and> q < nfut s \<and> handlers (fut s q) = [] \<and>
    simple_handler (Handler (nfut s) f g) \<and> 5 \<le> d \<longrightarrow>
      (\<exists>u. Future_then d q f g s = Some (nfut s, u) \<and>
           calls u = calls s @ [(q, Handler (nfut s) f g)] \<and> status_of (nfut s) u = PENDING)"
  proof
    assume h: "status_of q s \<noteq> PENDING \<and> q < nfut s \<and> handlers (fut s q) = [] \<and>
      simple_handler (Handler (nfut s) f g) \<and> 5 \<le> d"
    define n where "n = d - 5"
    have d: "d = Suc (Suc (Suc (Suc (Suc n))))" using h unfolding n_def by linarith
    show "\<exists>u. Future_then d q f g s = Some (nfut s, u) \<and>
           calls u = calls s @ [(q, Handler (nfut s) f g)] \<and> status_of (nfut s) u = PENDING"
      unfolding d using then_settled_calls[of q s f g n] h by blast
  qed
  show ?thesis using A B C by blast
qed

theorem settlement_deferred_witness:
  "\<exists>s t t' u. exec 5 [ENew, ENew, EResolve 0 (VNum 1), ETick] init = Some s \<and>
     wf_store s \<and>
     ETick \<notin> set [ENewWith [Res (VNum 7)] (Some (VStr ''boom'')), EResolve 1 (VNum 5),
                   EThen 1 (Some (CFun (returns (VNum 2)))) None,
                   EThen 0 (Some (CFun (returns (VNum 2)))) None] \<and>
     exec 5 [ENewWith [Res (VNum 7)] (Some (VStr ''boom'')), EResolve 1 (VNum 5),
             EThen 1 (Some (CFun (returns (VNum 2)))) None,
             EThen 0 (Some (CFun (returns (VNum 2)))) None] s = Some t \<and>
     nfut s = 2 \<and> nfut t = 5 \<and>
     status_of 1 t = status_of 1 s \<and> value_of 1 t = value_of 1 s \<and>
     status_of 2 t = PENDING \<and> status_of 3 t = PENDING \<and> status_of 4 t = PENDING \<and>
     (\<exists>xs. calls t = calls s @ xs \<and>
           (\<forall>c \<in> set xs. fst c < nfut s \<and> status_of (fst c) s \<noteq> PENDING)) \<and>
     run_task 5 (Task 1 (VNum 5) FULFILLED) s = Some t' \<and> (0 :: nat) < nfut s \<and> (0 :: nat) \<noteq> 1 \<and>
     status_of 0 t' = status_of 0 s \<and> value_of 0 t' = value_of 0 s \<and>
     status_of 0 s \<noteq> PENDING \<and> handlers (fut s 0) = [] \<and>
     simple_handler (Handler (nfut s) (Some (CFun (returns (VNum 2)))) None) \<and> (5 :: nat) \<le> 5 \<and>
     Future_then 5 0 (Some (CFun (returns (VNum 2)))) None s = Some (nfut s, u) \<and>
     calls u = calls s @ [(0, Handler (nfut s) (Some (CFun (returns (VNum 2)))) None)] \<and>
     status_of (nfut s) u = PENDING"
proof -
  let ?es = "[ENewWith [Res (VNum 7)] (Some (VStr ''boom'')), EResolve 1 (VNum 5),
             EThen 1 (Some (CFun (returns (VNum 2)))) None,
             EThen 0 (Some (CFun (returns (VNum 2)))) None]"
  obtain s where s: "exec 5 [ENew, ENew, EResolve 0 (VNum 1), ETick] init = Some s"
      "nfut s = 2" "status_of 1 s = PENDING" "status_of 0 s \<noteq> PENDING" "handlers (fut s 0) = []"
      "wf_store s" "status_of 0 s = FULFILLED" "handlers (fut s 1) = []"
    by (simp add: run_defs eval_nat_numeral wf_store_def)
  obtain t where t: "exec 5 ?es s = Some t" "nfut t = 5"
    using s(2,3,5,7)
    by (simp add: exec_def step_def constructor_def user_resolver_def Let_def prim_defs
        eval_nat_numeral resolve_def reject_def updateResult_def returns_def)
  obtain t' where t': "run_task 5 (Task 1 (VNum 5) FULFILLED) s = Some t'"
    using s(3,8) by (simp add: run_task_def isThenable_def prim_defs eval_nat_numeral)
  have sh: "simple_handler (Handler (nfut s) (Some (CFun (returns (VNum 2)))) None)"
    by (simp add: simple_handler_def simple_cb_def)
  have nt: "ETick \<notin> set ?es" by simp
  note inst = settlement_deferred[where ?s = s and ?es = ?es and ?d = 5 and ?t = t
      and ?b = 1 and ?v = "VNum 5" and ?st = FULFILLED and ?t' = t' and ?a = 0 and ?q = 0
      and ?f = "Some (CFun (returns (VNum 2)))" and ?g = None]
  from inst s t nt have 1:
    "\<forall>a. a < nfut s \<longrightarrow> status_of a t = status_of a s \<and> value_of a t = value_of a s"
    "\<forall>a. nfut s \<le> a \<and> a < nfut t \<longrightarrow> status_of a t = PENDING"
    "\<exists>xs. calls t = calls s @ xs \<and>
           (\<forall>c \<in> set xs. fst c < nfut s \<and> status_of (fst c) s \<noteq> PENDING)"
    by blast+
  from 1(1) s(2) have a: "status_of 1 t = status_of 1 s" "value_of 1 t = value_of 1 s" by simp_all
  from 1(2) s(2) t(2) have b: "status_of 2 t = PENDING" "status_of 3 t = PENDING"
    "status_of 4 t = PENDING" by simp_all
  from inst t' s(2) have c: "status_of 0 t' = status_of 0 s" "value_of 0 t' = value_of 0 s"
    by simp_all
  from inst s sh obtain u where u:
    "Future_then 5 0 (Some (CFun (returns (VNum 2)))) None s = Some (nfut s, u)"
    "calls u = calls s @ [(0, Handler (nfut s) (Some (CFun (returns (VNum 2)))) None)]"
    "status_of (nfut s) u = PENDING"
    by auto
  show ?thesis using s t t' sh nt 1(3) a b c u
    by (intro exI[of _ s] exI[of _ t] exI[of _ t'] exI[of _ u]) simp
qed

section \<open>A rejection passes through \<open>then\<close> without \<open>onReject\<close>\<close>















section \<open>The child of \<open>then\<close> after the parent is fulfilled\<close>

lemma step_simps:
  "step d (EResolve a v) s = Some (resolve a v s)"
  "step d (EReject a v) s = Some (reject a v s)"
  "step d ETick s = tick d s"
  by (simp_all add: step_def)










section \<open>race\<close>

text \<open>
  Claim C9 at a rejection followed at once by a fulfilment. Futures 0 and 1 are raced
  (the result is future 2). Future 0 is rejected by the first deferred callback, while
  future 1 is still pending; future 1 is fulfilled by the second. The rejection reaches
  the result through \<open>then\<close> and \<open>catch\<close>, one deferred callback later than the fulfilment
  does through \<open>then\<close> alone: the result is fulfilled with the value of future 1.
\<close>

theorem race_later_fulfilment_wins:
  "map_option (\<lambda>t. (status_of 0 t, status_of 1 t, status_of 2 t))
     (exec 5 [ENew, ENew, ERace [0, 1], EReject 0 (VStr ''first''), EResolve 1 (VNum 2), ETick]
        init) = Some (REJECTED, PENDING, PENDING) \<and>
   map_option (\<lambda>t. (status_of 0 t, value_of 0 t, status_of 2 t, value_of 2 t, queue t))
     (exec 5 ([ENew, ENew, ERace [0, 1], EReject 0 (VStr ''first''), EResolve 1 (VNum 2)] @
              replicate 9 ETick) init)
   = Some (REJECTED, VStr ''first'', FULFILLED, VNum 2, [])"
  by (simp add: run_defs eval_nat_numeral)

text \<open>The scenario of the specification: the fast future is fulfilled before the slow one.\<close>

lemma race_fast_slow:
  "map_option (\<lambda>t. (status_of 2 t, value_of 2 t, queue t))
     (exec 5 ([ENew, ENew, ERace [0, 1], EResolve 1 (VStr ''fast'')] @ replicate 4 ETick @
              [EResolve 0 (VStr ''slow'')] @ replicate 5 ETick) init)
   = Some (FULFILLED, VStr ''fast'', [])"
  by (simp add: run_defs eval_nat_numeral)

section \<open>all\<close>













lemma fulfil_each_append: "fulfil_each (xs @ ys) = fulfil_each xs @ fulfil_each ys"
  by (simp add: fulfil_each_def)
























lemma all_queue_length:
  "length (all_queue s agg r len cnt n fs) \<le> 2 * length fs + (if cnt < len then 1 else 0)"
proof (induction fs arbitrary: cnt n)
  case Nil
  then show ?case by simp
next
  case (Cons f fs)
  note a = Cons[of cnt "Suc (Suc n)"] and b = Cons[of "Suc cnt" "Suc (Suc n)"]
  show ?case
  proof (cases "Suc cnt = len")
    case True
    then have "\<not> Suc cnt < len" "cnt < len" by simp_all
    then show ?thesis using a b True by (auto split: if_splits)
  next
    case False
    then show ?thesis using a b by (auto split: if_splits)
  qed
qed



























section \<open>The first settlement with a plain value is final\<close>

lemma exec_settle_only:
  assumes "\<forall>e \<in> set es. \<exists>a w. e = EResolve a w \<or> e = EReject a w"
  shows "\<exists>ts. exec n es s = Some (s\<lparr>queue := queue s @ ts\<rparr>)"
  using assms
proof (induction es arbitrary: s)
  case Nil
  have "s = s\<lparr>queue := queue s @ []\<rparr>" by simp
  then show ?case by (metis exec_Nil)
next
  case (Cons e es)
  from Cons.prems obtain a w where e: "e = EResolve a w \<or> e = EReject a w" by auto
  then obtain st where st: "step n e s = Some (s\<lparr>queue := queue s @ [Task a w st]\<rparr>)"
    by (auto simp: step_simps resolve_def reject_def updateResult_def setTimeout0_def)
  from Cons.IH[of "s\<lparr>queue := queue s @ [Task a w st]\<rparr>"] Cons.prems obtain ts where
    "exec n es (s\<lparr>queue := queue s @ [Task a w st]\<rparr>)
       = Some (s\<lparr>queue := queue s @ [Task a w st]\<rparr>\<lparr>queue := queue (s\<lparr>queue := queue s @ [Task a w st]\<rparr>) @ ts\<rparr>)"
    by auto
  then have "exec n (e # es) s = Some (s\<lparr>queue := queue s @ (Task a w st # ts)\<rparr>)"
    using st by (simp add: exec_Cons)
  then show ?case by blast
qed

text \<open>
  Claim C1 as stated fails: \<open>resolve\<close> called with a future, then \<open>reject\<close> called with a
  plain value. The first deferred callback only subscribes to the inner future and leaves
  the outer one pending, so the second call settles it (rejected with \<open>e\<close>); without the
  second call the outer future is still pending. Both calls have an effect.
\<close>

theorem first_call_not_final_counterexample:
  "map_option (status_of 0)
     (exec 5 [ENew, ENew, EResolve 0 (VRef 1), EReject 0 (VStr ''e''), ETick, ETick] init)
     = Some REJECTED \<and>
   map_option (value_of 0)
     (exec 5 [ENew, ENew, EResolve 0 (VRef 1), EReject 0 (VStr ''e''), ETick, ETick] init)
     = Some (VStr ''e'') \<and>
   map_option (status_of 0)
     (exec 5 [ENew, ENew, EResolve 0 (VRef 1), ETick, ETick] init)
     = Some PENDING"
  by (simp add: run_defs eval_nat_numeral)

text \<open>
  Claim C1, amended: a settle call with a future as its value does not fix the outcome;
  one with a plain value does. When the deferred callback of a settle call with a plain
  value runs on a pending future, the future takes that status and value; from then on the
  deferred callback of every settle call on it changes nothing, and no sequence of calls
  and deferred callbacks changes its status or value. In particular, on a quiet host, of
  any sequence of \<open>resolve\<close> and \<open>reject\<close> calls that starts with a plain value on a
  pending future, the first call decides, once its deferred callback has run.
\<close>

theorem settle_plain_then_final:
  assumes "a < nfut s" and "status_of a s = PENDING" and "\<not> isThenable v"
    and "st = FULFILLED \<or> st = REJECTED"
  shows "(run_task n (Task a v st) s = Some s' \<longrightarrow>
            status_of a s' = st \<and> value_of a s' = v \<and>
            (\<forall>m w st'. run_task m (Task a w st') s' = Some s') \<and>
            (\<forall>m es t. exec m es s' = Some t \<longrightarrow> status_of a t = st \<and> value_of a t = v)) \<and>
         (queue s = [] \<and> (\<forall>e \<in> set later. \<exists>b w. e = EResolve b w \<or> e = EReject b w) \<and>
          exec n (settle_call st a v # later @ [ETick]) s = Some u \<longrightarrow>
            status_of a u = st \<and> value_of a u = v \<and>
            (\<forall>m es t. exec m es u = Some t \<longrightarrow> status_of a t = st \<and> value_of a t = v))"
proof -
  have ne: "st \<noteq> PENDING" using assms(4) by auto
  have first: "status_of a s' = st \<and> value_of a s' = v \<and>
            (\<forall>m w st'. run_task m (Task a w st') s' = Some s') \<and>
            (\<forall>m es t. exec m es s' = Some t \<longrightarrow> status_of a t = st \<and> value_of a t = v)"
    if run: "run_task n (Task a v st) s = Some s'" and a: "a < nfut s" "status_of a s = PENDING"
    for s s'
  proof -
    have p: "status_of a s' = st \<and> value_of a s' = v \<and> nfut s \<le> nfut s'"
      using run_task_plain[OF a assms(3) run] .
    then have "a < nfut s'" "status_of a s' \<noteq> PENDING" using a ne by auto
    then show ?thesis using p run_task_settled exec_settled by metis
  qed
  have second: "status_of a u = st \<and> value_of a u = v \<and>
            (\<forall>m es t. exec m es u = Some t \<longrightarrow> status_of a t = st \<and> value_of a t = v)"
    if q: "queue s = []" and l: "\<forall>e \<in> set later. \<exists>b w. e = EResolve b w \<or> e = EReject b w"
      and run: "exec n (settle_call st a v # later @ [ETick]) s = Some u"
  proof -
    let ?s1 = "s\<lparr>queue := [Task a v st]\<rparr>"
    have s1: "step n (settle_call st a v) s = Some ?s1"
      using q assms(4)
      by (auto simp: settle_call_def step_simps resolve_def reject_def updateResult_def
          setTimeout0_def)
    from exec_settle_only[OF l, of n ?s1] obtain ts where
      s2: "exec n later ?s1 = Some (?s1\<lparr>queue := queue ?s1 @ ts\<rparr>)" by blast
    let ?s3 = "s\<lparr>queue := ts\<rparr>"
    have "exec n (settle_call st a v # later @ [ETick]) s = run_task n (Task a v st) ?s3"
      using s1 s2 by (simp add: exec_Cons exec_append step_simps tick_def split: option.splits)
    then have r: "run_task n (Task a v st) ?s3 = Some u" using run by simp
    have "a < nfut ?s3" "status_of a ?s3 = PENDING" using assms(1,2) by (simp_all add: prim_defs)
    from first[OF r this] show ?thesis by blast
  qed
  show ?thesis using first[OF _ assms(1,2)] second by blast
qed

theorem settle_plain_then_final_witness:
  "\<exists>s s' u. exec 3 [ENew] init = Some s \<and> 0 < nfut s \<and> status_of 0 s = PENDING \<and>
      \<not> isThenable (VNum 1) \<and> (FULFILLED = FULFILLED \<or> FULFILLED = REJECTED) \<and>
      run_task 3 (Task 0 (VNum 1) FULFILLED) s = Some s' \<and>
      status_of 0 s' = FULFILLED \<and> value_of 0 s' = VNum 1 \<and>
      run_task 3 (Task 0 (VStr ''late'') REJECTED) s' = Some s' \<and>
      (\<forall>es t. exec 3 es s' = Some t \<longrightarrow> status_of 0 t = FULFILLED \<and> value_of 0 t = VNum 1) \<and>
      queue s = [] \<and>
      (\<forall>e \<in> set [EReject 0 (VStr ''late''), EResolve 0 (VNum 2)].
         \<exists>b w. e = EResolve b w \<or> e = EReject b w) \<and>
      exec 3 (settle_call FULFILLED 0 (VNum 1) #
              [EReject 0 (VStr ''late''), EResolve 0 (VNum 2)] @ [ETick]) s = Some u \<and>
      status_of 0 u = FULFILLED \<and> value_of 0 u = VNum 1 \<and>
      (\<forall>es t. exec 3 es u = Some t \<longrightarrow> status_of 0 t = FULFILLED \<and> value_of 0 t = VNum 1)"
proof -
  obtain s where s: "exec 3 [ENew] init = Some s" "0 < nfut s" "status_of 0 s = PENDING"
      "handlers (fut s 0) = []" "queue s = []"
    by (simp add: run_defs eval_nat_numeral)
  have nt: "\<not> isThenable (VNum 1)" by (simp add: isThenable_def)
  obtain s' where s': "run_task 3 (Task 0 (VNum 1) FULFILLED) s = Some s'"
    using s by (simp add: run_defs eval_nat_numeral)
  obtain u where u: "exec 3 (settle_call FULFILLED 0 (VNum 1) #
              [EReject 0 (VStr ''late''), EResolve 0 (VNum 2)] @ [ETick]) s = Some u"
    using s by (simp add: run_defs eval_nat_numeral settle_call_def)
  have st: "FULFILLED = FULFILLED \<or> FULFILLED = REJECTED" by simp
  have l: "\<forall>e \<in> set [EReject 0 (VStr ''late''), EResolve 0 (VNum 2)].
         \<exists>b w. e = EResolve b w \<or> e = EReject b w" by simp
  note inst = settle_plain_then_final[OF s(2) s(3) nt st, where ?n = 3 and ?s' = s'
      and ?later = "[EReject 0 (VStr ''late''), EResolve 0 (VNum 2)]" and ?u = u]
  from inst s s' u nt l show ?thesis
    by (intro exI[of _ s] exI[of _ s'] exI[of _ u]) simp
qed

section \<open>Bail and Future\<close>

lemma Bail_basic:
  "Bail_updateResult = updateResult" "Bail_resolve = resolve" "Bail_reject = reject"
  "Bail_isThenable = isThenable"
  by (simp_all add: fun_eq_iff Bail_updateResult_def updateResult_def Bail_resolve_def
      resolve_def Bail_reject_def reject_def Bail_isThenable_def isThenable_def)

lemma Bail_constructor_eq: "Bail_constructor resolver s = constructor resolver s"
  unfolding Bail_constructor_def constructor_def Bail_basic
  by (simp add: set_fut_def fut_def)

lemma Bail_constructor_fun: "Bail_constructor = constructor"
  by (simp add: fun_eq_iff Bail_constructor_eq)

lemma Bail_user_resolver_fun: "Bail_user_resolver = user_resolver"
  by (simp add: fun_eq_iff Bail_user_resolver_def user_resolver_def Bail_basic)

lemma Bail_sync_eq:
  "Bail_call n = call n \<and> Bail_onFullfill n = onFullfill n \<and> Bail_onReject n = onReject n \<and>
   Bail_executeHandlers n = executeHandlers n \<and> Bail_addHandler n = addHandler n \<and>
   Bail_then n = Future_then n"
proof (induction n)
  case 0
  show ?case by (simp add: fun_eq_iff)
next
  case (Suc n)
  then have ih: "Bail_call n = call n" "Bail_onFullfill n = onFullfill n"
    "Bail_onReject n = onReject n" "Bail_executeHandlers n = executeHandlers n"
    "Bail_addHandler n = addHandler n" "Bail_then n = Future_then n" by simp_all
  have "Bail_call (Suc n) c v s = call (Suc n) c v s" for c v s
    unfolding Bail_call.simps call.simps ih Bail_basic ..
  moreover have "Bail_onFullfill (Suc n) h v s = onFullfill (Suc n) h v s" for h v s
    unfolding Bail_onFullfill.simps onFullfill.simps ih Bail_basic ..
  moreover have "Bail_onReject (Suc n) h v s = onReject (Suc n) h v s" for h v s
    unfolding Bail_onReject.simps onReject.simps ih Bail_basic ..
  moreover have "Bail_executeHandlers (Suc n) a s = executeHandlers (Suc n) a s" for a s
    unfolding Bail_executeHandlers.simps executeHandlers.simps ih ..
  moreover have "Bail_addHandler (Suc n) a h s = addHandler (Suc n) a h s" for a h s
    unfolding Bail_addHandler.simps addHandler.simps ih ..
  moreover have "Bail_then (Suc n) a f g s = Future_then (Suc n) a f g s" for a f g s
    unfolding Bail_then.simps Future_then.simps ih by (rule Bail_constructor_eq)
  ultimately show ?case by (simp add: fun_eq_iff)
qed

lemma Bail_api_eq:
  "Bail_catch n = Future_catch n" "Bail_run_task n = run_task n" "Bail_all n = Future_all n"
  "Bail_race n = Future_race n" "Bail_tick n = tick n" "Bail_step n = step n"
proof -
  note sync = Bail_sync_eq[of n, THEN conjunct1]
    Bail_sync_eq[of n, THEN conjunct2, THEN conjunct2, THEN conjunct2, THEN conjunct1]
    Bail_sync_eq[of n, THEN conjunct2, THEN conjunct2, THEN conjunct2, THEN conjunct2, THEN conjunct2]
  show c: "Bail_catch n = Future_catch n"
    unfolding fun_eq_iff Bail_catch_def Future_catch_def sync by simp
  show r: "Bail_run_task n = run_task n"
    unfolding fun_eq_iff Bail_run_task_def run_task_def sync Bail_basic by simp
  show a: "Bail_all n = Future_all n"
    unfolding fun_eq_iff Bail_all_def Future_all_def sync c Bail_constructor_fun by simp
  show ra: "Bail_race n = Future_race n"
    unfolding fun_eq_iff Bail_race_def Future_race_def sync c Bail_constructor_fun by simp
  show t: "Bail_tick n = tick n"
    unfolding fun_eq_iff Bail_tick_def tick_def r by simp
  show "Bail_step n = step n"
    unfolding fun_eq_iff Bail_step_def step_def sync Bail_basic c a ra t Bail_constructor_fun
      Bail_user_resolver_fun
    by simp
qed

text \<open>
  Claim C10: the classes \<open>Future\<close> and \<open>Bail\<close> behave alike. The constructors give the same
  object for every resolver (the status that the field initializer of Bail writes is overwritten
  before the resolver runs), and every sequence of calls and deferred callbacks gives the
  same result on both: the same state, with the same statuses, values, handler queues and
  handler invocations, and a depth of the call stack suffices for the one exactly when it
  does for the other.
\<close>

theorem Bail_behaves_as_Future:
  "Bail_constructor resolver s = constructor resolver s \<and> Bail_exec d es s = exec d es s"
  by (simp add: Bail_constructor_eq Bail_exec_def exec_def Bail_api_eq)

end
